theory Spec2Isabelle
  imports Main "HOL-Library.Word"
begin

unbundle bit_operations_syntax

section \<open>Step-by-step QR Code generation: the symbol-construction engine\<close>

text \<open>
  A shallow embedding of \<^verbatim>\<open>instrumented-qrcodegen.ts\<close>. TypeScript's \<^verbatim>\<open>int\<close>,
  \<^verbatim>\<open>byte\<close> and \<^verbatim>\<open>bit\<close> are aliases of \<^verbatim>\<open>number\<close>; integral numbers are modelled as
  \<open>int\<close>. The bitwise operators of JavaScript work on the 32-bit image of their operands
  (\<^verbatim>\<open>>>>\<close> reads it unsigned), which is modelled by \<open>32 word\<close>.
\<close>

subsection \<open>Errors\<close>

text \<open>
  One constructor per string thrown by the source. \<open>TypeError\<close> is the exception that
  JavaScript raises when a property of \<^verbatim>\<open>undefined\<close> is read or written, as for a
  missing column. \<open>OutsideColumn\<close> is no exception of the source: it marks the one place
  where the model stops and the source goes on (see \<open>setModule\<close>).
\<close>

datatype error =
    VersionOutOfRange
  | AssertionError
  | InvalidArgument
  | DegreeOutOfRange
  | ByteOutOfRange
  | TypeError
  | OutsideColumn

subsection \<open>Modules (pixels)\<close>

text \<open>
  The class hierarchy below \<^verbatim>\<open>Module\<close>: \<^verbatim>\<open>UnfilledModule\<close>, and \<^verbatim>\<open>FilledModule\<close> with
  its fields \<^verbatim>\<open>color\<close> and \<^verbatim>\<open>isNew\<close>. The class of a filled module is kept as a tag;
  \<open>Plain\<close> is a direct instance of \<^verbatim>\<open>FilledModule\<close>, as \<^verbatim>\<open>makeMask\<close> creates them.
\<close>

datatype ModuleClass =
    Plain
  | FinderModule
  | SeparatorModule
  | AlignmentModule
  | FormatInfoModule
  | VersionInfoModule
  | TimingModule
  | BlackModule
  | CodewordModule
  | RemainderModule

datatype Module =
    UnfilledModule
  | FilledModule ModuleClass (color: bool) (isNew: bool)

text \<open>\<^verbatim>\<open>m instanceof FunctionModule\<close>: the seven subclasses of the abstract class.\<close>

fun isFunctionClass :: "ModuleClass \<Rightarrow> bool" where
  "isFunctionClass Plain = False"
| "isFunctionClass CodewordModule = False"
| "isFunctionClass RemainderModule = False"
| "isFunctionClass _ = True"

fun isFunctionModule :: "Module \<Rightarrow> bool" where
  "isFunctionModule UnfilledModule = False"
| "isFunctionModule (FilledModule c _ _) = isFunctionClass c"

fun isFilledModule :: "Module \<Rightarrow> bool" where
  "isFilledModule UnfilledModule = False"
| "isFilledModule (FilledModule _ _ _) = True"

text \<open>\<^verbatim>\<open>new C(color)\<close>: every constructor leaves \<^verbatim>\<open>isNew\<close> at its initial value true.\<close>

definition newModule :: "ModuleClass \<Rightarrow> bool \<Rightarrow> Module" where
  "newModule c col = FilledModule c col True"

subsection \<open>Error-correction levels\<close>

datatype ErrorCorrectionLevel = LOW | MEDIUM | QUARTILE | HIGH

fun ordinal :: "ErrorCorrectionLevel \<Rightarrow> int" where
  "ordinal LOW = 0"
| "ordinal MEDIUM = 1"
| "ordinal QUARTILE = 2"
| "ordinal HIGH = 3"

fun formatBits :: "ErrorCorrectionLevel \<Rightarrow> int" where
  "formatBits LOW = 1"
| "formatBits MEDIUM = 0"
| "formatBits QUARTILE = 3"
| "formatBits HIGH = 2"

subsection \<open>The grid\<close>

text \<open>
  \<^verbatim>\<open>modules[x][y]\<close>: a list of columns. The field \<^verbatim>\<open>size\<close> is called \<open>sizeQ\<close> here.
\<close>

record QrCode =
  version :: int
  errorCorrectionLevel :: ErrorCorrectionLevel
  sizeQ :: int
  modules :: "Module list list"

definition MIN_VERSION :: int where "MIN_VERSION = 1"
definition MAX_VERSION :: int where "MAX_VERSION = 40"

text \<open>
  The constructor. It holds no \<^verbatim>\<open>throw\<close>: the result is always \<open>Inr\<close>. The two loops
  run \<open>size\<close> times, that is not at all when \<open>size \<le> 0\<close>.
\<close>

definition QrCode_new :: "int \<Rightarrow> ErrorCorrectionLevel \<Rightarrow> error + QrCode" where
  "QrCode_new ver ecl =
     (let size = ver * 4 + 17;
          column = replicate (nat size) UnfilledModule
      in Inr \<lparr> version = ver, errorCorrectionLevel = ecl, sizeQ = size,
               modules = replicate (nat size) column \<rparr>)"

definition getNumRawDataModules :: "int \<Rightarrow> error + int" where
  "getNumRawDataModules ver =
     (if ver < MIN_VERSION \<or> ver > MAX_VERSION then Inl VersionOutOfRange
      else
        let result = (16 * ver + 128) * ver + 64 in
        if ver \<ge> 2 then
          let numAlign = ver div 7 + 2;
              result = result - ((25 * numAlign - 10) * numAlign - 55)
          in if ver \<ge> 7 then Inr (result - 36) else Inr result
        else Inr result)"

text \<open>The closed form as the specification words it, for comparison with the code.\<close>

definition spec_rawDataModules :: "int \<Rightarrow> int" where
  "spec_rawDataModules v =
     (16 * v + 128) * v + 64
     - (if v \<ge> 2 then (25 * (v div 7 + 2) - 10) * (v div 7 + 2) - 55 else 0)
     - (if v \<ge> 7 then 36 else 0)"

subsection \<open>Bit helpers\<close>

text \<open>
  \<^verbatim>\<open>getBit(x, i)\<close> is \<^verbatim>\<open>((x >>> i) & 1) != 0\<close>; the argument is given as the 32-bit
  image of \<^verbatim>\<open>x\<close>, and JavaScript takes the shift count modulo 32.
\<close>

definition getBit :: "32 word \<Rightarrow> nat \<Rightarrow> bool" where
  "getBit x i \<longleftrightarrow> drop_bit (i mod 32) x AND 1 \<noteq> 0"

text \<open>\<^verbatim>\<open>a ^ b\<close> on numbers: exclusive or of the 32-bit images, read as a signed value.\<close>

definition js_xor :: "int \<Rightarrow> int \<Rightarrow> int" where
  "js_xor a b = sint ((word_of_int a :: 32 word) XOR word_of_int b)"

subsection \<open>Reading and writing cells\<close>

definition inGrid :: "Module list list \<Rightarrow> int \<Rightarrow> int \<Rightarrow> bool" where
  "inGrid ms x y \<longleftrightarrow>
     0 \<le> x \<and> nat x < length ms \<and> 0 \<le> y \<and> nat y < length (ms ! nat x)"

text \<open>
  \<^verbatim>\<open>modules[x][y]\<close> as a read; \<open>None\<close> where the index is outside the arrays (the
  source then reads \<^verbatim>\<open>undefined\<close>, or throws when the column itself is missing).
\<close>

definition getModule :: "Module list list \<Rightarrow> int \<Rightarrow> int \<Rightarrow> Module option" where
  "getModule ms x y = (if inGrid ms x y then Some (ms ! nat x ! nat y) else None)"

text \<open>
  \<^verbatim>\<open>modules[x][y] = m\<close>. With a missing column the source throws a TypeError. With a
  row index outside an existing column the source does not fail: the assignment grows the
  column, or adds a property for a negative index, and leaves holes that no value of
  \<open>Module\<close> stands for. There the model stops with \<open>OutsideColumn\<close>; a result \<open>Inr\<close>
  says that every assignment fell on an existing cell.
\<close>

definition setModule :: "int \<Rightarrow> int \<Rightarrow> Module \<Rightarrow> Module list list \<Rightarrow> error + Module list list" where
  "setModule x y m ms =
     (if \<not> (0 \<le> x \<and> nat x < length ms) then Inl TypeError
      else if \<not> (0 \<le> y \<and> nat y < length (ms ! nat x)) then Inl OutsideColumn
      else Inr (ms[nat x := (ms ! nat x)[nat y := m]]))"

text \<open>A sequence of cell assignments, carried out in order; the first failure ends it.\<close>

fun drawModules :: "(int \<times> int \<times> Module) list \<Rightarrow> Module list list \<Rightarrow> error + Module list list" where
  "drawModules [] ms = Inr ms"
| "drawModules ((x, y, m) # ws) ms =
     (case setModule x y m ms of
        Inl e \<Rightarrow> Inl e
      | Inr ms' \<Rightarrow> drawModules ws ms')"

definition withModules :: "QrCode \<Rightarrow> error + Module list list \<Rightarrow> error + QrCode" where
  "withModules g r = (case r of Inl e \<Rightarrow> Inl e | Inr ms \<Rightarrow> Inr (g\<lparr>modules := ms\<rparr>))"

subsection \<open>Function patterns\<close>

text \<open>\<^verbatim>\<open>drawTimingPatterns\<close>: the assignments of the loop, in the order it makes them.\<close>

definition timingWrites :: "int \<Rightarrow> (int \<times> int \<times> Module) list" where
  "timingWrites sz =
     concat [[(6, i, newModule TimingModule (i mod 2 = 0)),
              (i, 6, newModule TimingModule (i mod 2 = 0))]. i \<leftarrow> [0..sz - 1]]"

definition drawTimingPatterns :: "QrCode \<Rightarrow> error + QrCode" where
  "drawTimingPatterns g = withModules g (drawModules (timingWrites (sizeQ g)) (modules g))"

text \<open>
  \<^verbatim>\<open>drawFinderPatterns\<close>: three centres, \<open>dy\<close> outside \<open>dx\<close>; a cell outside the grid is
  skipped (\<^verbatim>\<open>continue\<close>).
\<close>

definition finderCell :: "int \<Rightarrow> int \<Rightarrow> int \<Rightarrow> int \<Rightarrow> int \<Rightarrow> (int \<times> int \<times> Module) list" where
  "finderCell sz cx cy dy dx =
     (let dist = max \<bar>dx\<bar> \<bar>dy\<bar>; x = cx + dx; y = cy + dy in
      if \<not> (0 \<le> x \<and> x < sz \<and> 0 \<le> y \<and> y < sz) then []
      else if dist \<le> 3 then [(x, y, newModule FinderModule (dist \<noteq> 2 \<and> dist \<noteq> 4))]
      else [(x, y, newModule SeparatorModule False)])"

definition finderWrites :: "int \<Rightarrow> (int \<times> int \<times> Module) list" where
  "finderWrites sz =
     concat [concat [concat [finderCell sz cx cy dy dx. dx \<leftarrow> [-4..4]]. dy \<leftarrow> [-4..4]].
             (cx, cy) \<leftarrow> [(3, 3), (sz - 4, 3), (3, sz - 4)]]"

definition drawFinderPatterns :: "QrCode \<Rightarrow> error + QrCode" where
  "drawFinderPatterns g = withModules g (drawModules (finderWrites (sizeQ g)) (modules g))"

text \<open>
  \<^verbatim>\<open>drawAlignmentPatterns\<close>. The loop that fills \<^verbatim>\<open>alignPatPos\<close> inserts each position
  at index 1 and runs while the list is shorter than \<^verbatim>\<open>numAlign\<close>, that is
  \<open>numAlign - 1\<close> times. \<^verbatim>\<open>Math.ceil(a / b)\<close> is \<open>- ((- a) div b)\<close> for \<open>b > 0\<close>; with
  \<open>numAlign \<le> 1\<close> the divisor is not positive, but then the loop does not run and the
  step is never used.
\<close>

fun alignPosLoop :: "nat \<Rightarrow> int \<Rightarrow> int \<Rightarrow> int list \<Rightarrow> int list" where
  "alignPosLoop 0 pos step acc = acc"
| "alignPosLoop (Suc k) pos step acc =
     alignPosLoop k (pos - step) step (take 1 acc @ [pos] @ drop 1 acc)"

definition alignPatPos :: "int \<Rightarrow> int \<Rightarrow> int list" where
  "alignPatPos ver sz =
     (let numAlign = ver div 7 + 2;
          step = (if ver = 32 then 26
                  else (- ((- (sz - 13)) div (numAlign * 2 - 2))) * 2)
      in alignPosLoop (nat (numAlign - 1)) (sz - 7) step [6])"

definition alignmentBox :: "int \<Rightarrow> int \<Rightarrow> (int \<times> int \<times> Module) list" where
  "alignmentBox cx cy =
     concat [[(cx + dx, cy + dy, newModule AlignmentModule (max \<bar>dx\<bar> \<bar>dy\<bar> \<noteq> 1)).
              dx \<leftarrow> [-2..2]]. dy \<leftarrow> [-2..2]]"

definition alignmentWrites :: "int \<Rightarrow> int \<Rightarrow> (int \<times> int \<times> Module) list" where
  "alignmentWrites ver sz =
     (if ver = 1 then []
      else
        let numAlign = ver div 7 + 2;
            pos = alignPatPos ver sz;
            idx = zip pos [0..int (length pos) - 1]
        in concat [concat [if i = 0 \<and> j = 0 \<or> i = 0 \<and> j = numAlign - 1
                              \<or> i = numAlign - 1 \<and> j = 0
                           then [] else alignmentBox cx cy. (cy, j) \<leftarrow> idx]. (cx, i) \<leftarrow> idx])"

definition drawAlignmentPatterns :: "QrCode \<Rightarrow> error + QrCode" where
  "drawAlignmentPatterns g =
     withModules g (drawModules (alignmentWrites (version g) (sizeQ g)) (modules g))"

text \<open>
  \<^verbatim>\<open>drawFormatBits\<close>. \<open>formatData\<close> is the local \<^verbatim>\<open>data\<close> and \<open>formatField\<close> the
  local \<^verbatim>\<open>bits\<close>: zero for the mask \<open>-1\<close>, else the data bits with the remainder of
  ten rounds of
  \<^verbatim>\<open>rem = (rem << 1) ^ ((rem >>> 9) * 0x537)\<close>, which \<open>formatRemLoop\<close> counts down.
\<close>

fun formatRemLoop :: "nat \<Rightarrow> 32 word \<Rightarrow> 32 word" where
  "formatRemLoop 0 rem = rem"
| "formatRemLoop (Suc n) rem = formatRemLoop n (push_bit 1 rem XOR (drop_bit 9 rem * 0x537))"

definition formatData :: "ErrorCorrectionLevel \<Rightarrow> int \<Rightarrow> 32 word" where
  "formatData ecl msk = push_bit 3 (word_of_int (formatBits ecl)) OR word_of_int msk"

definition formatField :: "ErrorCorrectionLevel \<Rightarrow> int \<Rightarrow> 32 word" where
  "formatField ecl msk =
     (if msk \<noteq> -1 then
        (push_bit 10 (formatData ecl msk) OR formatRemLoop 10 (formatData ecl msk)) XOR 0x5412
      else 0)"

definition formatWrites :: "int \<Rightarrow> 32 word \<Rightarrow> (int \<times> int \<times> Module) list" where
  "formatWrites sz bits =
     [(8, int i, newModule FormatInfoModule (getBit bits i)). i \<leftarrow> [0..<6]]
     @ [(8, 7, newModule FormatInfoModule (getBit bits 6)),
        (8, 8, newModule FormatInfoModule (getBit bits 7)),
        (7, 8, newModule FormatInfoModule (getBit bits 8))]
     @ [(14 - int i, 8, newModule FormatInfoModule (getBit bits i)). i \<leftarrow> [9..<15]]
     @ [(sz - 1 - int i, 8, newModule FormatInfoModule (getBit bits i)). i \<leftarrow> [0..<8]]
     @ [(8, sz - 15 + int i, newModule FormatInfoModule (getBit bits i)). i \<leftarrow> [8..<15]]
     @ [(8, sz - 8, newModule BlackModule True)]"

definition drawFormatBits :: "QrCode \<Rightarrow> int \<Rightarrow> error + QrCode" where
  "drawFormatBits g msk =
     (let bits = formatField (errorCorrectionLevel g) msk in
      if drop_bit 15 bits \<noteq> 0 then Inl AssertionError
      else withModules g (drawModules (formatWrites (sizeQ g) bits) (modules g)))"

text \<open>\<^verbatim>\<open>drawVersionInformation\<close>.\<close>

fun versionRemLoop :: "nat \<Rightarrow> 32 word \<Rightarrow> 32 word" where
  "versionRemLoop 0 rem = rem"
| "versionRemLoop (Suc n) rem = versionRemLoop n (push_bit 1 rem XOR (drop_bit 11 rem * 0x1F25))"

definition versionField :: "int \<Rightarrow> 32 word" where
  "versionField ver =
     push_bit 12 (word_of_int ver) OR versionRemLoop 12 (word_of_int ver)"

definition versionWrites :: "int \<Rightarrow> 32 word \<Rightarrow> (int \<times> int \<times> Module) list" where
  "versionWrites sz bits =
     concat [(let bt = getBit bits i;
                  a = sz - 11 + int (i mod 3);
                  b = int (i div 3)
              in [(a, b, newModule VersionInfoModule bt),
                  (b, a, newModule VersionInfoModule bt)]). i \<leftarrow> [0..<18]]"

definition drawVersionInformation :: "QrCode \<Rightarrow> error + QrCode" where
  "drawVersionInformation g =
     (if version g < 7 then Inr g
      else
        let bits = versionField (version g) in
        if drop_bit 18 bits \<noteq> 0 then Inl AssertionError
        else withModules g (drawModules (versionWrites (sizeQ g) bits) (modules g)))"

subsection \<open>Scan order and data placement\<close>

text \<open>
  \<^verbatim>\<open>this.modules[x][y]\<close> as the read of \<^verbatim>\<open>makeZigZagScan\<close>: with a missing column the
  source throws a TypeError; with a row index outside an existing column it reads
  \<^verbatim>\<open>undefined\<close>, here \<open>None\<close>, which is no instance of \<^verbatim>\<open>UnfilledModule\<close>.
\<close>

definition readCell :: "Module list list \<Rightarrow> int \<Rightarrow> int \<Rightarrow> error + Module option" where
  "readCell ms x y =
     (if \<not> (0 \<le> x \<and> nat x < length ms) then Inl TypeError
      else Inr (if 0 \<le> y \<and> nat y < length (ms ! nat x) then Some (ms ! nat x ! nat y)
                else None))"

text \<open>A \<^verbatim>\<open>for\<close> loop over a range whose body may throw: the first error ends it.\<close>

fun forLoop :: "'a list \<Rightarrow> ('a \<Rightarrow> 'b \<Rightarrow> error + 'b) \<Rightarrow> 'b \<Rightarrow> error + 'b" where
  "forLoop [] body r = Inr r"
| "forLoop (a # as) body r =
     (case body a r of
        Inl e \<Rightarrow> Inl e
      | Inr r' \<Rightarrow> forLoop as body r')"

text \<open>
  \<^verbatim>\<open>makeZigZagScan\<close>. \<open>scanStep\<close> is the body of the innermost loop, \<open>stripScan\<close> the
  two loops over \<open>vert\<close> and \<open>j\<close> for one value of \<^verbatim>\<open>right\<close> (after the step from 6 to
  5), and \<open>zigZagLoop\<close> the outer loop; \<open>result\<close> is the array that the source pushes
  to.
\<close>

definition scanStep :: "QrCode \<Rightarrow> int \<Rightarrow> int \<Rightarrow> int \<Rightarrow> (int \<times> int) list \<Rightarrow> error + (int \<times> int) list" where
  "scanStep g right vert j result =
     (let x = right - j;
          upward = ((word_of_int (right + 1) :: 32 word) AND 2 = 0);
          y = (if upward then sizeQ g - 1 - vert else vert)
      in case readCell (modules g) x y of
           Inl e \<Rightarrow> Inl e
         | Inr cell \<Rightarrow> Inr (if cell = Some UnfilledModule then result @ [(x, y)] else result))"

definition stripScan :: "QrCode \<Rightarrow> int \<Rightarrow> (int \<times> int) list \<Rightarrow> error + (int \<times> int) list" where
  "stripScan g right result =
     forLoop [0..sizeQ g - 1] (\<lambda>vert. forLoop [0..1] (\<lambda>j. scanStep g right vert j)) result"

function zigZagLoop :: "QrCode \<Rightarrow> int \<Rightarrow> (int \<times> int) list \<Rightarrow> error + (int \<times> int) list" where
  "zigZagLoop g right result =
     (if right \<ge> 1 then
        (case stripScan g (if right = 6 then 5 else right) result of
           Inl e \<Rightarrow> Inl e
         | Inr result' \<Rightarrow> zigZagLoop g ((if right = 6 then 5 else right) - 2) result')
      else Inr result)"
  by pat_completeness auto
termination
  by (relation "measure (\<lambda>(g, right, result). nat right)") auto

declare zigZagLoop.simps [simp del]

definition makeZigZagScan :: "QrCode \<Rightarrow> error + (int \<times> int) list" where
  "makeZigZagScan g = zigZagLoop g (sizeQ g - 1) []"

text \<open>
  \<^verbatim>\<open>drawCodewords\<close>. The callback of \<^verbatim>\<open>forLoop\<close> gets the index \<open>i\<close> of the pair; its
  \<^verbatim>\<open>i++\<close> changes the callback's own parameter only. \<^verbatim>\<open>i >>> 3\<close> and \<^verbatim>\<open>i & 7\<close> are
  \<open>i div 8\<close> and \<open>i mod 8\<close> on an index.
\<close>

definition codewordWrites :: "int list \<Rightarrow> (int \<times> int) list \<Rightarrow> (int \<times> int \<times> Module) list" where
  "codewordWrites data zigZagScan =
     [(if i < length data * 8
       then (fst xy, snd xy,
             newModule CodewordModule (getBit (word_of_int (data ! (i div 8))) (7 - i mod 8)))
       else (fst xy, snd xy, newModule RemainderModule False)).
      (xy, i) \<leftarrow> zip zigZagScan [0..<length zigZagScan]]"

definition drawCodewords :: "QrCode \<Rightarrow> int list \<Rightarrow> (int \<times> int) list \<Rightarrow> error + QrCode" where
  "drawCodewords g data zigZagScan =
     (case getNumRawDataModules (version g) of
        Inl e \<Rightarrow> Inl e
      | Inr raw \<Rightarrow>
          if int (length data) \<noteq> raw div 8 then Inl InvalidArgument
          else withModules g (drawModules (codewordWrites data zigZagScan) (modules g)))"

text \<open>
  Reading back, for the round trip: the colours of the codeword cells met along a scan,
  and their grouping into bytes, most significant bit first.
\<close>

definition readCodewordBits :: "Module list list \<Rightarrow> (int \<times> int) list \<Rightarrow> bool list" where
  "readCodewordBits ms scan =
     concat [(case getModule ms (fst xy) (snd xy) of
                Some (FilledModule CodewordModule c n) \<Rightarrow> [c]
              | _ \<Rightarrow> []). xy \<leftarrow> scan]"

definition byteOfBits :: "bool list \<Rightarrow> int" where
  "byteOfBits bs = foldl (\<lambda>a b. 2 * a + (if b then 1 else 0)) 0 bs"

fun bytesOfBits :: "nat \<Rightarrow> bool list \<Rightarrow> int list" where
  "bytesOfBits 0 bs = []"
| "bytesOfBits (Suc n) bs = byteOfBits (take 8 bs) # bytesOfBits n (drop 8 bs)"

subsection \<open>Masks\<close>

text \<open>
  The class invariant of a grid: \<^verbatim>\<open>size\<close> and \<^verbatim>\<open>version\<close> are read-only fields set by
  the constructor, and \<^verbatim>\<open>modules\<close> holds \<open>size\<close> columns of \<open>size\<close> cells.
\<close>

definition wellFormed :: "QrCode \<Rightarrow> bool" where
  "wellFormed g \<longleftrightarrow>
     sizeQ g = version g * 4 + 17 \<and> 0 < sizeQ g
     \<and> length (modules g) = nat (sizeQ g)
     \<and> list_all (\<lambda>col. length col = nat (sizeQ g)) (modules g)"

text \<open>The \<^verbatim>\<open>switch\<close> of \<^verbatim>\<open>makeMask\<close>; \<open>None\<close> is its \<^verbatim>\<open>default\<close> branch.\<close>

definition maskInvert :: "int \<Rightarrow> int \<Rightarrow> int \<Rightarrow> bool option" where
  "maskInvert msk x y =
     (if msk = 0 then Some ((x + y) mod 2 = 0)
      else if msk = 1 then Some (y mod 2 = 0)
      else if msk = 2 then Some (x mod 3 = 0)
      else if msk = 3 then Some ((x + y) mod 3 = 0)
      else if msk = 4 then Some ((x div 3 + y div 2) mod 2 = 0)
      else if msk = 5 then Some (x * y mod 2 + x * y mod 3 = 0)
      else if msk = 6 then Some ((x * y mod 2 + x * y mod 3) mod 2 = 0)
      else if msk = 7 then Some (((x + y) mod 2 + x * y mod 3) mod 2 = 0)
      else None)"

text \<open>
  \<^verbatim>\<open>makeMask\<close>. The result starts as a fresh grid; the cell at a function module of
  \<open>g\<close> stays unfilled, every other cell becomes a plain filled module. With no cell to
  visit the \<^verbatim>\<open>switch\<close> is never reached. On a grid that breaks the class invariant the
  source would fail at, or misread, the first missing cell; the model answers \<open>TypeError\<close>
  for all of them.
\<close>

definition makeMask :: "QrCode \<Rightarrow> int \<Rightarrow> error + QrCode" where
  "makeMask g msk =
     (case QrCode_new (version g) (errorCorrectionLevel g) of
        Inl e \<Rightarrow> Inl e
      | Inr result \<Rightarrow>
          if sizeQ g \<le> 0 then Inr result
          else if maskInvert msk 0 0 = None then Inl AssertionError
          else if \<not> wellFormed g then Inl TypeError
          else Inr (result\<lparr>modules :=
                 [[(if \<not> isFunctionModule (modules g ! x ! y)
                    then newModule Plain (the (maskInvert msk (int x) (int y)))
                    else modules result ! x ! y).
                   y \<leftarrow> [0..<nat (sizeQ g)]]. x \<leftarrow> [0..<nat (sizeQ g)]]\<rparr>))"

text \<open>
  \<^verbatim>\<open>applyMask\<close>: where the mask cell \<open>a\<close> is filled, the colour of the cell \<open>b\<close> of
  the grid becomes \<^verbatim>\<open>b.color != a.color\<close>. The cast of \<open>b\<close> is unchecked: on an unfilled
  \<open>b\<close> the assignment would add a stray property to an object that stays an
  \<^verbatim>\<open>UnfilledModule\<close>, which no operation reads; the model leaves such a cell as it is.
\<close>

fun applyMaskCell :: "Module \<Rightarrow> Module \<Rightarrow> Module" where
  "applyMaskCell (FilledModule ca acolor an) (FilledModule cb bcolor bn) =
     FilledModule cb (bcolor \<noteq> acolor) bn"
| "applyMaskCell _ b = b"

definition applyMask :: "QrCode \<Rightarrow> QrCode \<Rightarrow> error + QrCode" where
  "applyMask g msk =
     (if sizeQ g \<le> 0 then Inr g
      else if \<not> (wellFormed g \<and> wellFormed msk \<and> sizeQ msk = sizeQ g) then Inl TypeError
      else Inr (g\<lparr>modules :=
             [[applyMaskCell (modules msk ! x ! y) (modules g ! x ! y).
               y \<leftarrow> [0..<nat (sizeQ g)]]. x \<leftarrow> [0..<nat (sizeQ g)]]\<rparr>))"

subsection \<open>Penalty rule 4\<close>

definition PENALTY_N4 :: int where "PENALTY_N4 = 10"

text \<open>
  The part of \<^verbatim>\<open>computePenalties\<close> that yields \<^verbatim>\<open>penalties[3]\<close>: the colour table, the
  count of dark cells over every column of the table, and the \<^verbatim>\<open>while\<close> loop, which the
  source does not bound (\<open>None\<close> is a loop that never ends). The loops of rules 1 to 3 run
  before and add to the other three entries only; they read \<^verbatim>\<open>colors[x][y]\<close> for all
  \<open>x, y < size\<close>, where a missing column is a TypeError and a missing cell compares as
  \<^verbatim>\<open>undefined\<close> without failing.
\<close>

definition moduleColors :: "Module list list \<Rightarrow> bool list list" where
  "moduleColors ms = map (map (\<lambda>cell. isFilledModule cell \<and> color cell)) ms"

definition countBlack :: "bool list list \<Rightarrow> int" where
  "countBlack colors = sum_list (map (\<lambda>column. int (length (filter (\<lambda>c. c) column))) colors)"

partial_function (option) rule4Loop :: "int \<Rightarrow> int \<Rightarrow> int \<Rightarrow> int option" where
  "rule4Loop black totl k =
     (if \<bar>black * 20 - totl * 10\<bar> > (k + 1) * totl
      then rule4Loop black totl (k + 1)
      else Some k)"

declare rule4Loop.simps [code]

text \<open>
  \<^verbatim>\<open>penalties[3]\<close> of \<^verbatim>\<open>computePenalties\<close>. The first branch is the TypeError of the
  loop of rule 1: its first row reads \<^verbatim>\<open>colors[x][0]\<close> for every \<open>x < size\<close>, which fails
  at the first missing column, that is when the size is positive and the grid has fewer
  columns than its size. \<^verbatim>\<open>penalties[3]\<close> starts at 0 and only rule 4 adds to it.
\<close>

definition computePenalties_rule4 :: "QrCode \<Rightarrow> (error + int) option" where
  "computePenalties_rule4 g =
     (if 0 < sizeQ g \<and> length (modules g) < nat (sizeQ g) then Some (Inl TypeError)
      else
        let black = countBlack (moduleColors (modules g));
            totl = sizeQ g * sizeQ g
        in case rule4Loop black totl 0 of
             None \<Rightarrow> None
           | Some k \<Rightarrow> Some (Inr (0 + k * PENALTY_N4)))"

subsection \<open>Reed-Solomon generator\<close>

text \<open>
  \<^verbatim>\<open>multiply\<close>: the loop runs \<open>i\<close> from 7 down to 0 on 32-bit values; the product with
  \<^verbatim>\<open>0x11D\<close> is exact in a double and is reduced to 32 bits by the exclusive or.
\<close>

definition multiply_step :: "32 word \<Rightarrow> 32 word \<Rightarrow> 32 word \<Rightarrow> nat \<Rightarrow> 32 word" where
  "multiply_step x y z i =
     (let z = push_bit 1 z XOR (drop_bit 7 z * 0x11D)
      in z XOR ((drop_bit i y AND 1) * x))"

fun multiply_loop :: "32 word \<Rightarrow> 32 word \<Rightarrow> nat \<Rightarrow> 32 word \<Rightarrow> 32 word" where
  "multiply_loop x y 0 z = multiply_step x y z 0"
| "multiply_loop x y (Suc i) z = multiply_loop x y i (multiply_step x y z (Suc i))"

definition multiply :: "int \<Rightarrow> int \<Rightarrow> error + int" where
  "multiply x y =
     (let xw = (word_of_int x :: 32 word); yw = (word_of_int y :: 32 word) in
      if drop_bit 8 xw \<noteq> 0 \<or> drop_bit 8 yw \<noteq> 0 then Inl ByteOutOfRange
      else
        let z = multiply_loop xw yw 7 0 in
        if drop_bit 8 z \<noteq> 0 then Inl AssertionError else Inr (uint z))"

record ReedSolomonGenerator =
  coefficients :: "int list"

text \<open>
  The constructor. \<open>rsInner\<close> is the loop over \<open>j\<close>: each coefficient is multiplied by
  the root and, but for the last, combined with its right neighbour, which that pass has
  not yet changed. \<open>rsOuter\<close> is the loop over \<open>i\<close>.
\<close>

fun rsInner :: "int \<Rightarrow> int list \<Rightarrow> error + int list" where
  "rsInner root [] = Inr []"
| "rsInner root (c # cs) =
     (case multiply c root of
        Inl e \<Rightarrow> Inl e
      | Inr m \<Rightarrow>
          (case rsInner root cs of
             Inl e \<Rightarrow> Inl e
           | Inr cs' \<Rightarrow> Inr ((case cs of [] \<Rightarrow> m | c' # _ \<Rightarrow> js_xor m c') # cs')))"

fun rsOuter :: "nat \<Rightarrow> int \<Rightarrow> int list \<Rightarrow> error + int list" where
  "rsOuter 0 root coefs = Inr coefs"
| "rsOuter (Suc n) root coefs =
     (case rsInner root coefs of
        Inl e \<Rightarrow> Inl e
      | Inr coefs' \<Rightarrow>
          (case multiply root 2 of
             Inl e \<Rightarrow> Inl e
           | Inr root' \<Rightarrow> rsOuter n root' coefs'))"

definition ReedSolomonGenerator_new :: "int \<Rightarrow> error + ReedSolomonGenerator" where
  "ReedSolomonGenerator_new degree =
     (if degree < 1 \<or> degree > 255 then Inl DegreeOutOfRange
      else
        case rsOuter (nat degree) 1 (replicate (nat (degree - 1)) 0 @ [1]) of
          Inl e \<Rightarrow> Inl e
        | Inr coefs \<Rightarrow> Inr \<lparr> coefficients = coefs \<rparr>)"

text \<open>
  \<^verbatim>\<open>getRemainder\<close>. \<open>remInner\<close> is the loop \<^verbatim>\<open>result[i] ^= multiply(coefficients[i], factor)\<close>;
  a missing coefficient or a \<^verbatim>\<open>shift\<close> of the empty array gives \<^verbatim>\<open>undefined\<close>, which
  the bit operations read as 0 (the constructor always leaves at least one coefficient).
\<close>

fun remInner :: "int list \<Rightarrow> int \<Rightarrow> int list \<Rightarrow> error + int list" where
  "remInner cs factor [] = Inr []"
| "remInner cs factor (r # rs) =
     (case multiply (case cs of [] \<Rightarrow> 0 | c # _ \<Rightarrow> c) factor of
        Inl e \<Rightarrow> Inl e
      | Inr m \<Rightarrow>
          (case remInner (tl cs) factor rs of
             Inl e \<Rightarrow> Inl e
           | Inr rs' \<Rightarrow> Inr (js_xor r m # rs')))"

fun remLoop :: "int list \<Rightarrow> int list \<Rightarrow> int list \<Rightarrow> error + int list" where
  "remLoop cs result [] = Inr result"
| "remLoop cs result (b # bs) =
     (let factor = js_xor b (case result of [] \<Rightarrow> 0 | r # _ \<Rightarrow> r);
          result = tl result @ [0]
      in case remInner cs factor result of
           Inl e \<Rightarrow> Inl e
         | Inr result' \<Rightarrow> remLoop cs result' bs)"

definition getRemainder :: "ReedSolomonGenerator \<Rightarrow> int list \<Rightarrow> error + int list" where
  "getRemainder gen data =
     remLoop (coefficients gen) (map (\<lambda>_. 0) (coefficients gen)) data"

subsection \<open>Auxiliary notions for the proofs\<close>

text \<open>
  One doubling step of the field (the first line of the loop body of \<^verbatim>\<open>multiply\<close>), its
  iterates, and the exclusive-or sum of \<open>f i\<close> over the bits \<open>i < n\<close> set in \<open>y\<close>.
\<close>

definition xt :: "32 word \<Rightarrow> 32 word" where
  "xt z = push_bit 1 z XOR (drop_bit 7 z * 0x11D)"

primrec xtn :: "nat \<Rightarrow> 32 word \<Rightarrow> 32 word" where
  "xtn 0 z = z"
| "xtn (Suc n) z = xt (xtn n z)"

primrec bsum :: "32 word \<Rightarrow> (nat \<Rightarrow> 32 word) \<Rightarrow> nat \<Rightarrow> 32 word" where
  "bsum y f 0 = 0"
| "bsum y f (Suc n) = bsum y f n XOR (if bit y n then f n else 0)"

text \<open>A number that is a byte.\<close>

definition isByte :: "int \<Rightarrow> bool" where
  "isByte b \<longleftrightarrow> 0 \<le> b \<and> b \<le> 255"

text \<open>
  A version-1 grid on which theorems are instantiated: column 6 holds dark timing
  modules, every other cell a light codeword module.
\<close>

definition sampleGrid :: QrCode where
  "sampleGrid =
     \<lparr> version = 1, errorCorrectionLevel = LOW, sizeQ = 21,
       modules = replicate 6 (replicate 21 (FilledModule CodewordModule False True))
                 @ [replicate 21 (FilledModule TimingModule True True)]
                 @ replicate 14 (replicate 21 (FilledModule CodewordModule False True)) \<rparr>"

text \<open>
  The scan as a list, for a grid that has all its columns: the cells of one pair of
  columns, of the pairs from \<open>right\<close> down, and of the whole grid.
\<close>

definition stripCells :: "QrCode \<Rightarrow> int \<Rightarrow> (int \<times> int) list" where
  "stripCells g right =
     concat [concat [(let x = right - j;
                          upward = ((word_of_int (right + 1) :: 32 word) AND 2 = 0);
                          y = (if upward then sizeQ g - 1 - vert else vert)
                      in if getModule (modules g) x y = Some UnfilledModule then [(x, y)] else []).
                     j \<leftarrow> [0..1]]. vert \<leftarrow> [0..sizeQ g - 1]]"

function zigZagFrom :: "QrCode \<Rightarrow> int \<Rightarrow> (int \<times> int) list" where
  "zigZagFrom g right =
     (if right \<ge> 1 then
        stripCells g (if right = 6 then 5 else right)
        @ zigZagFrom g ((if right = 6 then 5 else right) - 2)
      else [])"
  by pat_completeness auto
termination
  by (relation "measure (\<lambda>(g, right). nat right)") auto

declare zigZagFrom.simps [simp del]

definition scanCells :: "QrCode \<Rightarrow> (int \<times> int) list" where
  "scanCells g = zigZagFrom g (sizeQ g - 1)"

text \<open>
  A grid of \<open>n\<close> columns of \<open>n\<close> cells, a position inside it, and the cell that a list
  of assignments leaves at a position (\<open>m0\<close> where none of them falls there).
\<close>

definition square :: "nat \<Rightarrow> Module list list \<Rightarrow> bool" where
  "square n ms \<longleftrightarrow> length ms = n \<and> list_all (\<lambda>col. length col = n) ms"

definition inside :: "nat \<Rightarrow> int \<Rightarrow> int \<Rightarrow> bool" where
  "inside n x y \<longleftrightarrow> 0 \<le> x \<and> x < int n \<and> 0 \<le> y \<and> y < int n"

definition cellAfter :: "(int \<times> int \<times> Module) list \<Rightarrow> Module \<Rightarrow> int \<Rightarrow> int \<Rightarrow> Module" where
  "cellAfter ws m0 x y = foldl (\<lambda>acc w. if fst w = x \<and> fst (snd w) = y then snd (snd w) else acc) m0 ws"

definition writePos :: "(int \<times> int \<times> Module) list \<Rightarrow> (int \<times> int) list" where
  "writePos ws = map (\<lambda>w. (fst w, fst (snd w))) ws"

text \<open>
  A grid that differs in colour from column to column: seven dark columns, then fourteen
  light ones.
\<close>

definition stripedGrid :: QrCode where
  "stripedGrid =
     \<lparr> version = 1, errorCorrectionLevel = LOW, sizeQ = 21,
       modules = replicate 7 (replicate 21 (FilledModule CodewordModule True True))
                 @ replicate 14 (replicate 21 (FilledModule CodewordModule False True)) \<rparr>"

subsection \<open>The specification's wording\<close>

text \<open>
  The format field as the specification words it: the data is
  \<^verbatim>\<open>levelFormatCode<<3 | maskIndex\<close>, the remainder comes from ten rounds of
  \<^verbatim>\<open>rem = (rem<<1) ^ ((rem>>>9)&1)*0x537\<close>, and the field is
  \<^verbatim>\<open>(data<<10 | rem) ^ 0x5412\<close>.
\<close>

fun spec_formatRem :: "nat \<Rightarrow> 32 word \<Rightarrow> 32 word" where
  "spec_formatRem 0 rem = rem"
| "spec_formatRem (Suc n) rem =
     spec_formatRem n (push_bit 1 rem XOR ((drop_bit 9 rem AND 1) * 0x537))"

definition spec_formatData :: "int \<Rightarrow> int \<Rightarrow> 32 word" where
  "spec_formatData levelFormatCode maskIndex =
     push_bit 3 (word_of_int levelFormatCode) OR word_of_int maskIndex"

definition spec_formatField :: "int \<Rightarrow> int \<Rightarrow> 32 word" where
  "spec_formatField levelFormatCode maskIndex =
     (push_bit 10 (spec_formatData levelFormatCode maskIndex)
        OR spec_formatRem 10 (spec_formatData levelFormatCode maskIndex)) XOR 0x5412"

text \<open>
  The dark cells of a grid, for rule 4: the positions inside the grid that hold a filled
  module of dark colour.
\<close>

definition spec_darkCells :: "QrCode \<Rightarrow> (nat \<times> nat) set" where
  "spec_darkCells g =
     {(x, y). x < nat (sizeQ g) \<and> y < nat (sizeQ g)
        \<and> (\<exists>c n. modules g ! x ! y = FilledModule c True n)}"

subsection \<open>Format-information cells\<close>

text \<open>
  The two cells that \<^verbatim>\<open>drawFormatBits\<close> assigns bit \<open>i\<close> of the field to: the first copy
  around the top-left finder, the second split between the other two finders.
  \<open>formatFieldAgrees\<close> compares the field of the code with the one of the specification.
\<close>

definition formatPos1 :: "nat \<Rightarrow> int \<times> int" where
  "formatPos1 i =
     (if i \<le> 5 then (8, int i) else if i = 6 then (8, 7) else if i = 7 then (8, 8)
      else if i = 8 then (7, 8) else (14 - int i, 8))"

definition formatPos2 :: "int \<Rightarrow> nat \<Rightarrow> int \<times> int" where
  "formatPos2 sz i = (if i < 8 then (sz - 1 - int i, 8) else (8, sz - 15 + int i))"

definition formatFieldAgrees :: "ErrorCorrectionLevel \<Rightarrow> int \<Rightarrow> bool" where
  "formatFieldAgrees ecl msk \<longleftrightarrow>
     formatField ecl msk = spec_formatField (formatBits ecl) msk
     \<and> drop_bit 15 (formatField ecl msk) = 0"

text \<open>The version field of \<^verbatim>\<open>drawVersionInformation\<close> fits in 18 bits.\<close>

definition versionFieldFits :: "int \<Rightarrow> bool" where
  "versionFieldFits v \<longleftrightarrow> drop_bit 18 (versionField v) = 0"

subsection \<open>The construction sequence\<close>

text \<open>
  A fresh grid on which the timing patterns, the finder patterns, the alignment patterns,
  the format bits for a mask and the version information are drawn, in this order; an
  error of a step ends the sequence. \<open>unfilledCells\<close> are the positions whose cell is
  still unfilled, \<open>gridCells\<close> the positions of a grid of a given side.
\<close>

definition thenE :: "error + 'a \<Rightarrow> ('a \<Rightarrow> error + 'b) \<Rightarrow> error + 'b" where
  "thenE r f = (case r of Inl e \<Rightarrow> Inl e | Inr a \<Rightarrow> f a)"

definition drawFunctionPatterns :: "int \<Rightarrow> ErrorCorrectionLevel \<Rightarrow> int \<Rightarrow> error + QrCode" where
  "drawFunctionPatterns ver ecl msk =
     thenE (thenE (thenE (thenE (thenE (QrCode_new ver ecl)
       drawTimingPatterns) drawFinderPatterns) drawAlignmentPatterns)
       (\<lambda>g. drawFormatBits g msk)) drawVersionInformation"

definition unfilledCells :: "QrCode \<Rightarrow> (int \<times> int) set" where
  "unfilledCells g = {(x, y). getModule (modules g) x y = Some UnfilledModule}"

definition gridCells :: "int \<Rightarrow> (int \<times> int) set" where
  "gridCells sz = {0..sz - 1} \<times> {0..sz - 1}"

subsection \<open>Rectangles of function modules\<close>

text \<open>
  A rectangle \<open>(x0, x1, y0, y1)\<close> stands for the cells with \<open>x0 \<le> x \<le> x1\<close> and
  \<open>y0 \<le> y \<le> y1\<close>. \<open>unionArea\<close> counts the cells of a union of rectangles by inclusion
  and exclusion. The lists below are the rectangles that each drawing step fills, read off
  its loops; \<open>capacityCheck\<close> says that for a version they lie inside the grid and leave
  as many cells as \<^verbatim>\<open>getNumRawDataModules\<close> returns.
\<close>

type_synonym rect = "int \<times> int \<times> int \<times> int"

definition rectCells :: "rect \<Rightarrow> (int \<times> int) set" where
  "rectCells r = (case r of (x0, x1, y0, y1) \<Rightarrow> {x0..x1} \<times> {y0..y1})"

definition rectArea :: "rect \<Rightarrow> int" where
  "rectArea r =
     (case r of (x0, x1, y0, y1) \<Rightarrow>
        if x0 \<le> x1 \<and> y0 \<le> y1 then (x1 - x0 + 1) * (y1 - y0 + 1) else 0)"

definition rectInter :: "rect \<Rightarrow> rect \<Rightarrow> rect" where
  "rectInter r s =
     (case r of (x0, x1, y0, y1) \<Rightarrow>
      case s of (u0, u1, v0, v1) \<Rightarrow> (max x0 u0, min x1 u1, max y0 v0, min y1 v1))"

definition rectNonempty :: "rect \<Rightarrow> bool" where
  "rectNonempty r = (case r of (x0, x1, y0, y1) \<Rightarrow> x0 \<le> x1 \<and> y0 \<le> y1)"

function unionArea :: "rect list \<Rightarrow> int" where
  "unionArea [] = 0"
| "unionArea (r # rs) =
     rectArea r + unionArea rs - unionArea (filter rectNonempty (map (rectInter r) rs))"
  by pat_completeness auto

termination
  by (relation "measure length") (auto simp: less_Suc_eq_le)

definition timingRects :: "int \<Rightarrow> rect list" where
  "timingRects sz = [(6, 6, 0, sz - 1), (0, sz - 1, 6, 6)]"

definition finderRects :: "int \<Rightarrow> rect list" where
  "finderRects sz =
     [rectInter (cx - 4, cx + 4, cy - 4, cy + 4) (0, sz - 1, 0, sz - 1).
      (cx, cy) \<leftarrow> [(3, 3), (sz - 4, 3), (3, sz - 4)]]"

definition alignmentRects :: "int \<Rightarrow> int \<Rightarrow> rect list" where
  "alignmentRects ver sz =
     (if ver = 1 then []
      else
        let numAlign = ver div 7 + 2;
            pos = alignPatPos ver sz;
            idx = zip pos [0..int (length pos) - 1]
        in concat [concat [if i = 0 \<and> j = 0 \<or> i = 0 \<and> j = numAlign - 1
                              \<or> i = numAlign - 1 \<and> j = 0
                           then [] else [(cx - 2, cx + 2, cy - 2, cy + 2)]. (cy, j) \<leftarrow> idx].
                   (cx, i) \<leftarrow> idx])"

definition formatRects :: "int \<Rightarrow> rect list" where
  "formatRects sz =
     [(8, 8, 0, 5), (8, 8, 7, 8), (7, 7, 8, 8), (0, 5, 8, 8),
      (sz - 8, sz - 1, 8, 8), (8, 8, sz - 7, sz - 1), (8, 8, sz - 8, sz - 8)]"

definition versionRects :: "int \<Rightarrow> int \<Rightarrow> rect list" where
  "versionRects ver sz =
     (if ver < 7 then [] else [(sz - 11, sz - 9, 0, 5), (0, 5, sz - 11, sz - 9)])"

definition functionRects :: "int \<Rightarrow> int \<Rightarrow> rect list" where
  "functionRects ver sz =
     alignmentRects ver sz @ versionRects ver sz @ formatRects sz @ finderRects sz
     @ timingRects sz"

definition rectWithin :: "int \<Rightarrow> rect \<Rightarrow> bool" where
  "rectWithin sz r = (case r of (x0, x1, y0, y1) \<Rightarrow> 0 \<le> x0 \<and> x1 < sz \<and> 0 \<le> y0 \<and> y1 < sz)"

definition capacityCheck :: "int \<Rightarrow> bool" where
  "capacityCheck ver \<longleftrightarrow>
     list_all (rectWithin (ver * 4 + 17)) (functionRects ver (ver * 4 + 17))
     \<and> Inr ((ver * 4 + 17) * (ver * 4 + 17) - unionArea (functionRects ver (ver * 4 + 17)))
         = getNumRawDataModules ver"

definition rectsCells :: "rect list \<Rightarrow> (int \<times> int) set" where
  "rectsCells rs = (\<Union>r\<in>set rs. rectCells r)"

subsection \<open>Cells of a column pair\<close>

text \<open>
  The row and the cell that the scan visits at step \<open>k\<close> of a pair of columns.
\<close>

definition scanCell :: "QrCode \<Rightarrow> int \<Rightarrow> int \<Rightarrow> (int \<times> int) list" where
  "scanCell g x y = (if getModule (modules g) x y = Some UnfilledModule then [(x, y)] else [])"

definition scanRow :: "QrCode \<Rightarrow> int \<Rightarrow> int \<Rightarrow> int" where
  "scanRow g right vert =
     (if (word_of_int (right + 1) :: 32 word) AND 2 = 0 then sizeQ g - 1 - vert else vert)"

section \<open>Raw data-module capacity\<close>

text \<open>
  C5. For a version in [1,40], \<^verbatim>\<open>getNumRawDataModules\<close> returns the closed form of the
  specification: \<open>(16v+128)v+64\<close>, less \<open>(25a-10)a-55\<close> with \<open>a = v div 7 + 2\<close> from
  version 2 on, less 36 from version 7 on; version 1 has 208 raw data modules.
\<close>

theorem getNumRawDataModules_closed_form:
  "1 \<le> v \<and> v \<le> 40 \<longrightarrow>
     getNumRawDataModules v = Inr (spec_rawDataModules v)
     \<and> getNumRawDataModules 1 = Inr 208"
  by (simp add: getNumRawDataModules_def spec_rawDataModules_def MIN_VERSION_def
      MAX_VERSION_def Let_def)

theorem getNumRawDataModules_closed_form_witness:
  "(1::int) \<le> 7 \<and> (7::int) \<le> 40 \<and> getNumRawDataModules 7 = Inr 1568
   \<and> spec_rawDataModules 7 = 1568 \<and> getNumRawDataModules 1 = Inr 208"
  using getNumRawDataModules_closed_form [of 7]
  by (simp add: spec_rawDataModules_def)

section \<open>Construction\<close>

text \<open>
  C6, as the code has it. The constructor does not check the version. For a version in
  [1,40] it returns a square grid of side \<open>version * 4 + 17\<close> whose cells are all
  unfilled; for a version outside [1,40] it returns a grid as well: 181 columns of 181
  unfilled cells for version 41, and 17 columns of 17 unfilled cells for version 0.
\<close>

theorem QrCode_new_unchecked:
  "(1 \<le> ver \<and> ver \<le> 40 \<longrightarrow>
      (\<exists>g. QrCode_new ver ecl = Inr g \<and> version g = ver \<and> errorCorrectionLevel g = ecl
         \<and> sizeQ g = ver * 4 + 17 \<and> wellFormed g
         \<and> (\<forall>x y. 0 \<le> x \<and> x < sizeQ g \<and> 0 \<le> y \<and> y < sizeQ g
               \<longrightarrow> getModule (modules g) x y = Some UnfilledModule)))
   \<and> (\<exists>g. QrCode_new 41 ecl = Inr g \<and> sizeQ g = 181
         \<and> modules g = replicate 181 (replicate 181 UnfilledModule))
   \<and> (\<exists>g. QrCode_new 0 ecl = Inr g \<and> sizeQ g = 17
         \<and> modules g = replicate 17 (replicate 17 UnfilledModule))"
proof (intro conjI impI)
  assume v: "1 \<le> ver \<and> ver \<le> 40"
  let ?sz = "ver * 4 + 17"
  let ?g = "\<lparr> version = ver, errorCorrectionLevel = ecl, sizeQ = ?sz,
              modules = replicate (nat ?sz) (replicate (nat ?sz) UnfilledModule) \<rparr>"
  have n: "QrCode_new ver ecl = Inr ?g" by (simp add: QrCode_new_def Let_def)
  have wf: "wellFormed ?g" using v by (simp add: wellFormed_def list_all_iff)
  have c: "\<forall>x y. 0 \<le> x \<and> x < sizeQ ?g \<and> 0 \<le> y \<and> y < sizeQ ?g
               \<longrightarrow> getModule (modules ?g) x y = Some UnfilledModule"
    by (auto simp: getModule_def inGrid_def)
  show "\<exists>g. QrCode_new ver ecl = Inr g \<and> version g = ver \<and> errorCorrectionLevel g = ecl
         \<and> sizeQ g = ver * 4 + 17 \<and> wellFormed g
         \<and> (\<forall>x y. 0 \<le> x \<and> x < sizeQ g \<and> 0 \<le> y \<and> y < sizeQ g
               \<longrightarrow> getModule (modules g) x y = Some UnfilledModule)"
    using n wf c by (intro exI[of _ ?g]) simp
qed (simp_all add: QrCode_new_def Let_def)

theorem QrCode_new_unchecked_witness:
  "\<exists>g. QrCode_new 1 HIGH = Inr g \<and> version g = 1 \<and> errorCorrectionLevel g = HIGH
     \<and> sizeQ g = 21 \<and> wellFormed g
     \<and> getModule (modules g) 0 0 = Some UnfilledModule
     \<and> getModule (modules g) 20 20 = Some UnfilledModule"
proof -
  from QrCode_new_unchecked[of 1 HIGH] obtain g where
    g: "QrCode_new 1 HIGH = Inr g" "version g = 1" "errorCorrectionLevel g = HIGH"
       "sizeQ g = 1 * 4 + 17" "wellFormed g"
       "\<forall>x y. 0 \<le> x \<and> x < sizeQ g \<and> 0 \<le> y \<and> y < sizeQ g
               \<longrightarrow> getModule (modules g) x y = Some UnfilledModule"
    by auto
  from g(4) have s: "sizeQ g = 21" by simp
  from g(6) s have "getModule (modules g) 0 0 = Some UnfilledModule"
    "getModule (modules g) 20 20 = Some UnfilledModule" by simp_all
  with g s show ?thesis by blast
qed

text \<open>Version 41 is outside [1,40], and the construction succeeds with side 181.\<close>

theorem QrCode_new_41_succeeds:
  "QrCode_new 41 LOW =
     Inr \<lparr> version = 41, errorCorrectionLevel = LOW, sizeQ = 181,
           modules = replicate 181 (replicate 181 UnfilledModule) \<rparr>"
  by (simp add: QrCode_new_def Let_def)

section \<open>Galois-field multiplication\<close>

lemma byte_bits: "(z :: 32 word) < 256 \<Longrightarrow> bit z n \<longleftrightarrow> n < 8 \<and> bit z n"
proof -
  assume "z < 256"
  then have "take_bit 8 z = z" using less_mask_eq[of z 8] by (simp add: take_bit_eq_mask)
  then have "bit z n = bit (take_bit 8 z) n" by simp
  then show ?thesis by (simp add: bit_take_bit_iff)
qed

lemma byteI: "(\<And>n. bit (z :: 32 word) n \<Longrightarrow> n < 8) \<Longrightarrow> z < 256"
proof -
  assume a: "\<And>n. bit z n \<Longrightarrow> n < 8"
  have "take_bit 8 z = z"
    by (rule bit_eqI) (auto simp: bit_take_bit_iff dest: a)
  then show ?thesis using and_mask_less'[of 8 z] by (simp add: take_bit_eq_mask)
qed

lemma byte_iff_drop: "(z :: 32 word) < 256 \<longleftrightarrow> drop_bit 8 z = 0"
proof
  assume z: "z < 256"
  show "drop_bit 8 z = 0"
  proof (rule bit_eqI)
    fix n
    show "bit (drop_bit 8 z) n = bit (0 :: 32 word) n"
      using byte_bits[OF z, of "n + 8"] by (simp add: bit_drop_bit_eq add.commute)
  qed
next
  assume d: "drop_bit 8 z = 0"
  show "z < 256"
  proof (rule byteI)
    fix n assume b: "bit z n"
    show "n < 8"
    proof (rule ccontr)
      assume "\<not> n < 8"
      then have "bit (drop_bit 8 z) (n - 8)" using b by (simp add: bit_drop_bit_eq)
      with d show False by simp
    qed
  qed
qed

lemma db7: "(z :: 32 word) < 256 \<Longrightarrow> drop_bit 7 z = of_bool (bit z 7)"
  apply (rule bit_eqI)
  apply (simp add: bit_drop_bit_eq bit_of_bool_iff)
  subgoal for n
    using byte_bits[of z "n+7"] by (cases n) auto
  done

lemma xt_alt: "(z :: 32 word) < 256 \<Longrightarrow> xt z = push_bit 1 z XOR (if bit z 7 then 0x11D else 0)"
  by (simp add: xt_def db7)

lemma byte_xor: "(a :: 32 word) < 256 \<Longrightarrow> b < 256 \<Longrightarrow> a XOR b < 256"
  apply (rule byteI)
  using byte_bits[of a] byte_bits[of b] by (auto simp: bit_xor_iff)

lemma xt_lin: "(a :: 32 word) < 256 \<Longrightarrow> b < 256 \<Longrightarrow> xt (a XOR b) = xt a XOR xt b"
  by (simp add: xt_alt byte_xor bit_xor_iff xor.assoc xor.left_commute)

lemma bit285: "bit (285 :: 32 word) n \<longleftrightarrow> n \<in> {0,2,3,4,8}"
proof (cases "n < 9")
  case True
  then have "n \<in> {0,1,2,3,4,5,6,7,8}" by auto
  then show ?thesis by (elim insertE) simp_all
next
  case False
  have "\<not> bit (take_bit 9 w) n" for w :: "32 word"
    using False by (simp add: bit_take_bit_iff)
  from this[of 285] have "\<not> bit (285 :: 32 word) n" by simp
  with False show ?thesis by auto
qed

lemma xt_0: "xt 0 = 0" by (simp add: xt_def)

lemma mstep_alt: "multiply_step x y z i = xt z XOR (if bit y i then x else 0)"
  by (simp add: multiply_step_def xt_def and_one_eq bit_iff_odd_drop_bit mod_2_eq_odd)

lemma xt_byte: "(z :: 32 word) < 256 \<Longrightarrow> xt z < 256"
proof (rule byteI)
  fix n
  assume z: "z < 256" and b: "bit (xt z) n"
  have "bit (2 * z) n \<longleftrightarrow> 1 \<le> n \<and> n \<le> 8 \<and> bit z (n - 1)"
    using byte_bits[OF z, of "n - 1"] by (subst bit_double_iff) (auto dest: bit_imp_le_length)
  then have p: "bit (z * 2) n \<longleftrightarrow> 1 \<le> n \<and> n \<le> 8 \<and> bit z (n - 1)"
    by (simp add: mult.commute)
  show "n < 8"
  proof (cases "bit z 7")
    case True
    with z b p bit285[of n] show ?thesis
      by (cases "n = 8") (auto simp: xt_alt bit_xor_iff)
  next
    case False
    with z b p show ?thesis
      by (cases "n = 8") (auto simp: xt_alt)
  qed
qed

lemma xtn_byte: "(z :: 32 word) < 256 \<Longrightarrow> xtn n z < 256"
  by (induction n) (simp_all add: xt_byte)

lemma xtn_lin: "(a :: 32 word) < 256 \<Longrightarrow> b < 256 \<Longrightarrow> xtn n (a XOR b) = xtn n a XOR xtn n b"
  by (induction n) (simp_all add: xt_lin xtn_byte)

lemma xtn_0: "xtn n 0 = 0"
  by (induction n) (simp_all add: xt_0)

lemma xtn_if: "xtn n (if c then a else 0) = (if c then xtn n a else 0)"
  by (simp add: xtn_0)

lemma xtn_xt: "xtn n (xt z) = xt (xtn n z)"
  by (induction n) simp_all

lemma bsum_byte: "(\<And>i. i < n \<Longrightarrow> f i < 256) \<Longrightarrow> bsum y f n < 256"
  by (induction n) (auto intro!: byte_xor)

lemma bsum_cong: "(\<And>i. i < n \<Longrightarrow> f i = g i) \<Longrightarrow> bsum y f n = bsum y g n"
  by (induction n) auto

lemma xtn_bsum:
  "(\<And>i. i < n \<Longrightarrow> f i < 256) \<Longrightarrow> xtn k (bsum y f n) = bsum y (\<lambda>i. xtn k (f i)) n"
  by (induction n) (simp_all add: xtn_0 xtn_lin bsum_byte)

lemma bsum_xor: "bsum y (\<lambda>i. f i XOR g i) n = bsum y f n XOR bsum y g n"
  by (induction n) (simp_all add: xor.assoc xor.left_commute)

lemma bsum_if: "bsum y (\<lambda>i. if c then f i else 0) n = (if c then bsum y f n else 0)"
  by (induction n) simp_all

lemma bsum_zero: "bsum y (\<lambda>i. 0) n = 0"
  by (induction n) simp_all

lemma bsum_swap:
  "bsum y (\<lambda>i. bsum x (\<lambda>j. h i j) m) n = bsum x (\<lambda>j. bsum y (\<lambda>i. h i j) n) m"
  by (induction n) (simp_all add: bsum_zero bsum_xor bsum_if)

lemma multiply_loop_bsum:
  "x < 256 \<Longrightarrow> z < 256 \<Longrightarrow>
   multiply_loop x y n z = xtn (Suc n) z XOR bsum y (\<lambda>i. xtn i x) (Suc n)"
proof (induction n arbitrary: z)
  case 0
  then show ?case by (simp add: mstep_alt)
next
  case (Suc n)
  have b: "xt z XOR (if bit y (Suc n) then x else 0) < 256"
    using Suc.prems by (auto intro!: byte_xor xt_byte)
  show ?case
    using Suc.prems
    by (simp add: Suc.IH[OF Suc.prems(1) b] mstep_alt xtn_lin xtn_xt xtn_0 xt_byte xor.assoc del: bsum.simps xtn.simps)
       (simp add: xtn_xt xor.assoc xor.left_commute xor.commute)
qed

lemma bit_bsum_exp: "n \<le> 32 \<Longrightarrow> bit (bsum y (\<lambda>i. 2 ^ i) n) k \<longleftrightarrow> k < n \<and> bit y k"
  by (induction n) (auto simp: bit_xor_iff bit_exp_iff less_Suc_eq dest: bit_imp_le_length)

lemma byte_decomp: "y < 256 \<Longrightarrow> bsum y (\<lambda>i. 2 ^ i) 8 = y"
  by (rule bit_eqI) (use byte_bits[of y] in \<open>auto simp: bit_bsum_exp simp del: bsum.simps\<close>)

lemma pow_byte: "j \<le> 7 \<Longrightarrow> (2 ^ j :: 32 word) < 256"
  by (rule byteI) (auto simp: bit_exp_iff)

lemma xt_pow: "j < 7 \<Longrightarrow> xt (2 ^ j) = 2 ^ Suc j"
  by (simp add: xt_alt pow_byte bit_exp_iff)

lemma xtn_one: "j \<le> 7 \<Longrightarrow> xtn j 1 = 2 ^ j"
  by (induction j) (simp_all add: xt_pow)

lemma xtn_add: "xtn i (xtn j z) = xtn (i + j) z"
  by (induction i) simp_all

lemma xtn_pow_sym: "i \<le> 7 \<Longrightarrow> j \<le> 7 \<Longrightarrow> xtn i (2 ^ j) = xtn j (2 ^ i)"
proof -
  assume i: "i \<le> 7" and j: "j \<le> 7"
  have "xtn i (2 ^ j) = xtn i (xtn j 1)" by (simp add: xtn_one j)
  also have "\<dots> = xtn j (xtn i 1)" by (simp add: xtn_add add.commute)
  also have "\<dots> = xtn j (2 ^ i)" by (simp add: xtn_one i)
  finally show ?thesis .
qed

lemma multiply_loop_eq_bsum:
  assumes "x < 256"
  shows "multiply_loop x y 7 0 = bsum y (\<lambda>i. xtn i x) 8"
  using multiply_loop_bsum[OF assms, of 0 y 7] by (simp add: xtn_0 xt_0 del: bsum.simps xtn.simps)

lemma multiply_loop_byte:
  assumes "x < 256"
  shows "multiply_loop x y 7 0 < 256"
  unfolding multiply_loop_eq_bsum[OF assms]
  by (rule bsum_byte) (simp add: xtn_byte assms)

lemma multiply_loop_commute:
  assumes x: "x < 256" and y: "y < 256"
  shows "multiply_loop x y 7 0 = multiply_loop y x 7 0"
proof -
  have "multiply_loop x y 7 0 = bsum y (\<lambda>i. xtn i (bsum x (\<lambda>j. 2 ^ j) 8)) 8"
    by (simp only: multiply_loop_eq_bsum[OF x] byte_decomp[OF x])
  also have "\<dots> = bsum y (\<lambda>i. bsum x (\<lambda>j. xtn i (2 ^ j)) 8) 8"
    by (simp add: xtn_bsum pow_byte del: bsum.simps)
  also have "\<dots> = bsum x (\<lambda>j. bsum y (\<lambda>i. xtn i (2 ^ j)) 8) 8"
    by (rule bsum_swap)
  also have "\<dots> = bsum x (\<lambda>j. bsum y (\<lambda>i. xtn j (2 ^ i)) 8) 8"
    by (intro bsum_cong xtn_pow_sym) simp_all
  also have "\<dots> = bsum x (\<lambda>j. xtn j (bsum y (\<lambda>i. 2 ^ i) 8)) 8"
    by (simp add: xtn_bsum pow_byte del: bsum.simps)
  also have "\<dots> = multiply_loop y x 7 0"
    by (simp only: multiply_loop_eq_bsum[OF y] byte_decomp[OF y])
  finally show ?thesis .
qed

lemma bsum_0: "bsum 0 f n = 0"
  by (induction n) simp_all

lemma bsum_1: "bsum 1 f (Suc n) = f 0"
  by (induction n) (simp_all add: bit_1_iff)

lemma word_of_byte: "0 \<le> x \<Longrightarrow> x \<le> 255 \<Longrightarrow> (word_of_int x :: 32 word) < 256"
  by (simp add: word_less_def uint_word_of_int take_bit_int_eq_self)

lemma uint_of_byte: "0 \<le> x \<Longrightarrow> x \<le> 255 \<Longrightarrow> uint (word_of_int x :: 32 word) = x"
  by (simp add: uint_word_of_int take_bit_int_eq_self)

lemma multiply_ok:
  assumes "0 \<le> x" "x \<le> 255" "0 \<le> y" "y \<le> 255"
  shows "multiply x y = Inr (uint (multiply_loop (word_of_int x) (word_of_int y) 7 0))"
  using word_of_byte[OF assms(1,2)] word_of_byte[OF assms(3,4)]
    multiply_loop_byte[of "word_of_int x" "word_of_int y"]
  by (simp add: multiply_def Let_def byte_iff_drop)

text \<open>
  C8. For bytes \<open>x\<close> and \<open>y\<close> (values in [0,255]): \<^verbatim>\<open>multiply(x,1)\<close> is \<open>x\<close>,
  \<^verbatim>\<open>multiply(x,0)\<close> is 0, \<^verbatim>\<open>multiply\<close> is commutative, and the product is returned
  (neither range check nor the internal assertion fires) and is again in [0,255].
\<close>

theorem multiply_laws:
  "0 \<le> x \<and> x \<le> 255 \<and> 0 \<le> y \<and> y \<le> 255 \<longrightarrow>
     multiply x 1 = Inr x \<and> multiply x 0 = Inr 0
     \<and> multiply x y = multiply y x
     \<and> (\<exists>z. multiply x y = Inr z \<and> 0 \<le> z \<and> z \<le> 255)"
proof (intro impI, elim conjE)
  assume a: "0 \<le> x" "x \<le> 255" "0 \<le> y" "y \<le> 255"
  have xw: "(word_of_int x :: 32 word) < 256" and yw: "(word_of_int y :: 32 word) < 256"
    using a by (simp_all add: word_of_byte)
  have one: "multiply x 1 = Inr x"
    using multiply_ok[OF a(1,2), of 1] bsum_1[of "\<lambda>i. xtn i (word_of_int x)" 7]
    by (simp add: multiply_loop_eq_bsum[OF xw] uint_of_byte a del: bsum.simps)
  have zero: "multiply x 0 = Inr 0"
    using multiply_ok[OF a(1,2), of 0]
    by (simp add: multiply_loop_eq_bsum[OF xw] bsum_0 del: bsum.simps)
  have comm: "multiply x y = multiply y x"
    by (simp add: multiply_ok a multiply_loop_commute[OF xw yw])
  have "multiply_loop (word_of_int x) (word_of_int y) 7 0 < (256 :: 32 word)"
    by (rule multiply_loop_byte[OF xw])
  then have "uint (multiply_loop (word_of_int x :: 32 word) (word_of_int y) 7 0) \<le> 255"
    by (simp add: word_less_def)
  then have rng: "\<exists>z. multiply x y = Inr z \<and> 0 \<le> z \<and> z \<le> 255"
    by (simp add: multiply_ok a)
  from one zero comm rng show "multiply x 1 = Inr x \<and> multiply x 0 = Inr 0
     \<and> multiply x y = multiply y x
     \<and> (\<exists>z. multiply x y = Inr z \<and> 0 \<le> z \<and> z \<le> 255)" by blast
qed

theorem multiply_laws_witness:
  "(0::int) \<le> 200 \<and> (200::int) \<le> 255 \<and> (0::int) \<le> 100 \<and> (100::int) \<le> 255
   \<and> multiply 200 1 = Inr 200 \<and> multiply 200 0 = Inr 0
   \<and> multiply 200 100 = Inr 79 \<and> multiply 100 200 = Inr 79"
proof -
  have "multiply 200 100 = Inr 79" by code_simp
  with multiply_laws [of 200 100] show ?thesis by simp
qed

section \<open>Reed-Solomon remainder\<close>

lemma sint_byte: "(w :: 32 word) < 256 \<Longrightarrow> sint w = uint w"
proof -
  assume w: "w < 256"
  have b: "\<not> bit w 31" using byte_bits[OF w, of 31] by simp
  have "uint w < 256" using w by (simp add: word_less_def)
  then have "take_bit 31 (uint w) = uint w" by (intro take_bit_int_eq_self) simp_all
  with b show ?thesis by (simp add: sint_uint signed_take_bit_eq_if_positive bit_uint_iff)
qed

lemma js_xor_byte: "isByte a \<Longrightarrow> isByte b \<Longrightarrow> isByte (js_xor a b)"
proof -
  assume a: "isByte a" and b: "isByte b"
  have x: "(word_of_int a :: 32 word) XOR word_of_int b < 256"
    using a b by (intro byte_xor word_of_byte) (simp_all add: isByte_def)
  then have "uint ((word_of_int a :: 32 word) XOR word_of_int b) \<le> 255"
    by (simp add: word_less_def)
  then show ?thesis by (simp add: js_xor_def sint_byte[OF x] isByte_def)
qed

lemma js_xor_0: "js_xor 0 0 = 0"
  by (simp add: js_xor_def)

lemma multiply_byte: "isByte x \<Longrightarrow> isByte y \<Longrightarrow> \<exists>z. multiply x y = Inr z \<and> isByte z"
proof -
  assume x: "isByte x" and y: "isByte y"
  have xw: "(word_of_int x :: 32 word) < 256" using x by (simp add: word_of_byte isByte_def)
  have "uint (multiply_loop (word_of_int x :: 32 word) (word_of_int y) 7 0) \<le> 255"
    using multiply_loop_byte[OF xw, of "word_of_int y"] by (simp add: word_less_def)
  with x y show ?thesis by (simp add: multiply_ok isByte_def)
qed

lemma multiply_0: "isByte x \<Longrightarrow> multiply x 0 = Inr 0"
proof -
  assume x: "isByte x"
  have xw: "(word_of_int x :: 32 word) < 256" using x by (simp add: word_of_byte isByte_def)
  show ?thesis
    using x multiply_ok[of x 0]
    by (simp add: multiply_loop_eq_bsum[OF xw] bsum_0 isByte_def del: bsum.simps)
qed

lemma rsInner_ok:
  "isByte root \<Longrightarrow> list_all isByte cs \<Longrightarrow>
   \<exists>cs'. rsInner root cs = Inr cs' \<and> length cs' = length cs \<and> list_all isByte cs'"
proof (induction cs)
  case Nil
  then show ?case by simp
next
  case (Cons c cs)
  then obtain cs' where cs': "rsInner root cs = Inr cs'" "length cs' = length cs" "list_all isByte cs'"
    by auto
  from Cons.prems obtain m where m: "multiply c root = Inr m" "isByte m"
    using multiply_byte[of c root] by auto
  show ?case
    using cs' m Cons.prems by (cases cs) (simp_all add: js_xor_byte)
qed

lemma rsOuter_ok:
  "isByte root \<Longrightarrow> list_all isByte cs \<Longrightarrow>
   \<exists>cs'. rsOuter n root cs = Inr cs' \<and> length cs' = length cs \<and> list_all isByte cs'"
proof (induction n arbitrary: root cs)
  case 0
  then show ?case by simp
next
  case (Suc n)
  from rsInner_ok[OF Suc.prems] obtain c1 where
    c1: "rsInner root cs = Inr c1" "length c1 = length cs" "list_all isByte c1" by auto
  from multiply_byte[OF Suc.prems(1), of 2] obtain r where
    r: "multiply root 2 = Inr r" "isByte r" by (auto simp: isByte_def)
  from Suc.IH[OF r(2) c1(3)] show ?case using c1 r by simp
qed

lemma ReedSolomonGenerator_new_ok:
  assumes "1 \<le> degree" "degree \<le> 255"
  shows "\<exists>gen. ReedSolomonGenerator_new degree = Inr gen
           \<and> int (length (coefficients gen)) = degree \<and> list_all isByte (coefficients gen)"
proof -
  have b: "list_all isByte (replicate (nat (degree - 1)) 0 @ [1])"
    by (simp add: list_all_iff isByte_def)
  have "isByte 1" by (simp add: isByte_def)
  from rsOuter_ok[OF this b, of "nat degree"] obtain cs where
    "rsOuter (nat degree) 1 (replicate (nat (degree - 1)) 0 @ [1]) = Inr cs"
    "length cs = length (replicate (nat (degree - 1)) 0 @ [1::int])" "list_all isByte cs" by blast
  with assms show ?thesis by (simp add: ReedSolomonGenerator_new_def)
qed

lemma remInner_ok:
  "isByte f \<Longrightarrow> list_all isByte cs \<Longrightarrow> list_all isByte rs \<Longrightarrow>
   \<exists>rs'. remInner cs f rs = Inr rs' \<and> length rs' = length rs \<and> list_all isByte rs'"
proof (induction rs arbitrary: cs)
  case Nil
  then show ?case by simp
next
  case (Cons r rs)
  have c: "isByte (case cs of [] \<Rightarrow> 0 | c # _ \<Rightarrow> c)"
    using Cons.prems(2) by (cases cs) (simp_all add: isByte_def)
  from multiply_byte[OF c Cons.prems(1)] obtain m where
    m: "multiply (case cs of [] \<Rightarrow> 0 | c # _ \<Rightarrow> c) f = Inr m" "isByte m" by auto
  have "list_all isByte (tl cs)" using Cons.prems(2) by (cases cs) simp_all
  from Cons.IH[OF Cons.prems(1) this] Cons.prems(3) obtain rs' where
    "remInner (tl cs) f rs = Inr rs'" "length rs' = length rs" "list_all isByte rs'" by auto
  then show ?case using m Cons.prems(3) by (simp add: js_xor_byte)
qed

lemma remInner_zero:
  "list_all isByte cs \<Longrightarrow> remInner cs 0 (replicate n 0) = Inr (replicate n 0)"
proof (induction n arbitrary: cs)
  case 0
  then show ?case by simp
next
  case (Suc n)
  have c: "isByte (case cs of [] \<Rightarrow> 0 | c # _ \<Rightarrow> c)"
    using Suc.prems by (cases cs) (simp_all add: isByte_def)
  have "list_all isByte (tl cs)" using Suc.prems by (cases cs) simp_all
  from Suc.IH[OF this] show ?case by (simp add: multiply_0[OF c] js_xor_0)
qed

lemma remLoop_ok:
  "list_all isByte cs \<Longrightarrow> list_all isByte result \<Longrightarrow> result \<noteq> [] \<Longrightarrow> list_all isByte data \<Longrightarrow>
   \<exists>r. remLoop cs result data = Inr r \<and> length r = length result \<and> list_all isByte r"
proof (induction data arbitrary: result)
  case Nil
  then show ?case by simp
next
  case (Cons b bs)
  let ?f = "js_xor b (case result of [] \<Rightarrow> 0 | r # _ \<Rightarrow> r)"
  have f: "isByte ?f"
    using Cons.prems by (cases result) (simp_all add: js_xor_byte)
  have s: "list_all isByte (tl result @ [0])"
    using Cons.prems(2) by (cases result) (auto simp: isByte_def list_all_iff)
  from remInner_ok[OF f Cons.prems(1) s] obtain r1 where
    r1: "remInner cs ?f (tl result @ [0]) = Inr r1" "length r1 = length (tl result @ [0])"
      "list_all isByte r1" by blast
  have ne: "r1 \<noteq> []" using r1(2) by auto
  have bs: "list_all isByte bs" using Cons.prems(4) by simp
  from Cons.IH[OF Cons.prems(1) r1(3) ne bs] r1 Cons.prems(3) show ?case
    by (cases result) (simp_all add: Let_def)
qed

lemma remLoop_zero:
  "list_all isByte cs \<Longrightarrow> remLoop cs (replicate (Suc n) 0) (replicate k 0) = Inr (replicate (Suc n) 0)"
proof (induction k)
  case 0
  then show ?case by simp
next
  case (Suc k)
  define R where "R = replicate (Suc n) (0::int)"
  have t: "tl R @ [0] = R"
    by (simp add: R_def replicate_append_same)
  have h: "(case R of [] \<Rightarrow> 0 | r # _ \<Rightarrow> r) = 0"
    by (simp add: R_def)
  have i: "remInner cs 0 R = Inr R"
    unfolding R_def by (rule remInner_zero[OF Suc.prems])
  have "remLoop cs R (0 # replicate k 0) = remLoop cs R (replicate k 0)"
    by (simp add: Let_def h t i js_xor_0)
  with Suc show ?case by (simp add: R_def)
qed

text \<open>
  C9. For a degree in [1,255] the generator is built, and for every sequence of data
  bytes \<^verbatim>\<open>getRemainder\<close> returns a remainder whose length is the degree; when all
  data bytes are zero the remainder is all zero.
\<close>

theorem getRemainder_length_and_zero:
  "1 \<le> degree \<and> degree \<le> 255 \<and> (\<forall>b\<in>set data. 0 \<le> b \<and> b \<le> 255) \<longrightarrow>
     (\<exists>gen r. ReedSolomonGenerator_new degree = Inr gen
        \<and> int (length (coefficients gen)) = degree
        \<and> getRemainder gen data = Inr r
        \<and> int (length r) = degree
        \<and> ((\<forall>b\<in>set data. b = 0) \<longrightarrow> r = replicate (nat degree) 0))"
proof (intro impI, elim conjE)
  assume d: "1 \<le> degree" "degree \<le> 255" and bytes: "\<forall>b\<in>set data. 0 \<le> b \<and> b \<le> 255"
  from ReedSolomonGenerator_new_ok[OF d] obtain gen where
    gen: "ReedSolomonGenerator_new degree = Inr gen" "int (length (coefficients gen)) = degree"
      "list_all isByte (coefficients gen)" by blast
  let ?cs = "coefficients gen"
  have len: "length ?cs = nat degree" using gen(2) by simp
  have z: "map (\<lambda>_. 0::int) ?cs = replicate (nat degree) 0"
    by (simp add: map_replicate_const len)
  have zb: "list_all isByte (replicate (nat degree) 0)" by (simp add: list_all_iff isByte_def)
  have zn: "replicate (nat degree) (0::int) \<noteq> []" using d by simp
  have db: "list_all isByte data" using bytes by (simp add: list_all_iff isByte_def)
  from remLoop_ok[OF gen(3) zb zn db] obtain r where
    r: "remLoop ?cs (replicate (nat degree) 0) data = Inr r" "length r = nat degree" by auto
  have zero: "r = replicate (nat degree) 0" if "\<forall>b\<in>set data. b = 0"
  proof -
    have dz: "data = replicate (length data) 0"
      using that by (simp add: replicate_length_same)
    obtain n where n: "nat degree = Suc n" using d by (cases "nat degree") auto
    have "remLoop ?cs (replicate (Suc n) 0) (replicate (length data) 0) = Inr (replicate (Suc n) 0)"
      by (rule remLoop_zero[OF gen(3)])
    with r(1) dz n show ?thesis by simp
  qed
  show "\<exists>gen r. ReedSolomonGenerator_new degree = Inr gen
        \<and> int (length (coefficients gen)) = degree
        \<and> getRemainder gen data = Inr r
        \<and> int (length r) = degree
        \<and> ((\<forall>b\<in>set data. b = 0) \<longrightarrow> r = replicate (nat degree) 0)"
    using gen r zero d by (auto simp: getRemainder_def z)
qed

theorem getRemainder_length_and_zero_witness:
  "(1::int) \<le> 7 \<and> (7::int) \<le> 255
   \<and> ReedSolomonGenerator_new 7 = Inr \<lparr>coefficients = [127, 122, 154, 164, 11, 68, 117]\<rparr>
   \<and> getRemainder \<lparr>coefficients = [127, 122, 154, 164, 11, 68, 117]\<rparr> [0, 0, 0]
       = Inr [0, 0, 0, 0, 0, 0, 0]
   \<and> getRemainder \<lparr>coefficients = [127, 122, 154, 164, 11, 68, 117]\<rparr> [1, 2, 3, 4, 5]
       = Inr [25, 12, 98, 89, 59, 45, 57]"
proof -
  have g: "ReedSolomonGenerator_new 7 = Inr \<lparr>coefficients = [127, 122, 154, 164, 11, 68, 117]\<rparr>"
    by code_simp
  have r: "getRemainder \<lparr>coefficients = [127, 122, 154, 164, 11, 68, 117]\<rparr> [1, 2, 3, 4, 5]
       = Inr [25, 12, 98, 89, 59, 45, 57]"
    by code_simp
  from getRemainder_length_and_zero [of 7 "[0, 0, 0]"] g r show ?thesis
    by (auto simp: numeral_eq_Suc)
qed

section \<open>Penalty rule 4\<close>

lemma rule4Loop_least:
  assumes t: "0 < t"
  shows "0 \<le> k \<Longrightarrow> k * t \<le> d \<Longrightarrow> (\<forall>j. 0 \<le> j \<and> j < k \<longrightarrow> (j + 1) * t < d)
     \<Longrightarrow> d = \<bar>b * 20 - t * 10\<bar>
     \<Longrightarrow> \<exists>k'. rule4Loop b t k = Some k' \<and> 0 \<le> k' \<and> d \<le> (k' + 1) * t
           \<and> (\<forall>j. 0 \<le> j \<and> j < k' \<longrightarrow> (j + 1) * t < d)"
proof (induction "nat (d - k * t)" arbitrary: k rule: less_induct)
  case less
  show ?case
  proof (cases "d > (k + 1) * t")
    case True
    have m: "nat (d - (k + 1) * t) < nat (d - k * t)"
      using True t by (simp add: algebra_simps)
    have p: "\<forall>j. 0 \<le> j \<and> j < k + 1 \<longrightarrow> (j + 1) * t < d"
    proof (intro allI impI)
      fix j assume "0 \<le> j \<and> j < k + 1"
      then have "j < k \<or> j = k" by auto
      then show "(j + 1) * t < d" using less.prems(3) True \<open>0 \<le> j \<and> j < k + 1\<close> by auto
    qed
    have "\<exists>k'. rule4Loop b t (k + 1) = Some k' \<and> 0 \<le> k' \<and> d \<le> (k' + 1) * t
           \<and> (\<forall>j. 0 \<le> j \<and> j < k' \<longrightarrow> (j + 1) * t < d)"
      using less.hyps[OF m _ _ p less.prems(4)] less.prems(1) True by simp
    moreover have "rule4Loop b t k = rule4Loop b t (k + 1)"
      using True less.prems(4) by (subst rule4Loop.simps) simp
    ultimately show ?thesis by simp
  next
    case False
    then have "rule4Loop b t k = Some k"
      using less.prems(4) by (subst rule4Loop.simps) simp
    with False less.prems show ?thesis by auto
  qed
qed

lemma dark_iff_filled:
  "(isFilledModule cell \<and> color cell) \<longleftrightarrow> (\<exists>c n. cell = FilledModule c True n)"
  by (cases cell) auto

lemma countBlack_card:
  assumes "wellFormed g"
  shows "countBlack (moduleColors (modules g)) = int (card (spec_darkCells g))"
proof -
  let ?n = "nat (sizeQ g)"
  let ?ms = "modules g"
  let ?D = "\<lambda>x y. \<exists>c n. ?ms ! x ! y = FilledModule c True n"
  have len: "length ?ms = ?n" and col: "\<And>x. x < ?n \<Longrightarrow> length (?ms ! x) = ?n"
    using assms by (auto simp: wellFormed_def list_all_length)
  have cnt: "length (filter (\<lambda>c. c) (map (\<lambda>cell. isFilledModule cell \<and> color cell) (?ms ! x)))
      = card {y. y < ?n \<and> ?D x y}" if "x < ?n" for x
  proof -
    have "length (filter (\<lambda>c. c) (map (\<lambda>cell. isFilledModule cell \<and> color cell) (?ms ! x)))
        = card {y. y < length (?ms ! x) \<and> (isFilledModule (?ms ! x ! y) \<and> color (?ms ! x ! y))}"
      by (simp add: length_filter_conv_card cong: conj_cong)
    then show ?thesis by (simp add: col[OF that] dark_iff_filled)
  qed
  have "countBlack (moduleColors ?ms)
      = (\<Sum>x = 0..<?n. int (length (filter (\<lambda>c. c)
              (map (\<lambda>cell. isFilledModule cell \<and> color cell) (?ms ! x)))))"
    unfolding countBlack_def moduleColors_def
    by (simp add: sum_list_sum_nth len)
  also have "\<dots> = (\<Sum>x = 0..<?n. int (card {y. y < ?n \<and> ?D x y}))"
  proof (rule sum.cong[OF refl])
    fix x assume "x \<in> {0..<?n}"
    then have "x < ?n" by simp
    from cnt[OF this]
    show "int (length (filter (\<lambda>c. c)
              (map (\<lambda>cell. isFilledModule cell \<and> color cell) (?ms ! x))))
        = int (card {y. y < ?n \<and> ?D x y})"
      by (simp only:)
  qed
  also have "\<dots> = int (\<Sum>x \<in> {0..<?n}. card {y. y < ?n \<and> ?D x y})" by simp
  also have "(\<Sum>x \<in> {0..<?n}. card {y. y < ?n \<and> ?D x y})
      = card (SIGMA x : {0..<?n}. {y. y < ?n \<and> ?D x y})"
    by (subst card_SigmaI) simp_all
  also have "(SIGMA x : {0..<?n}. {y. y < ?n \<and> ?D x y}) = spec_darkCells g"
    by (auto simp: spec_darkCells_def)
  finally show ?thesis .
qed

text \<open>
  C10. On a well-formed grid \<^verbatim>\<open>computePenalties\<close> returns, and the sub-total of rule 4 is
  \<open>10 * k\<close> for the least \<open>k \<ge> 0\<close> with \<open>|black * 20 - total * 10| \<le> (k + 1) * total\<close>,
  where \<open>black\<close> is the number of dark cells of the grid and \<open>total\<close> the square of its
  size.
\<close>

theorem penalty_rule4:
  "wellFormed g \<longrightarrow>
     (\<exists>k. computePenalties_rule4 g = Some (Inr (10 * k)) \<and> 0 \<le> k
        \<and> \<bar>int (card (spec_darkCells g)) * 20 - sizeQ g * sizeQ g * 10\<bar>
             \<le> (k + 1) * (sizeQ g * sizeQ g)
        \<and> (\<forall>j. 0 \<le> j \<and> j < k \<longrightarrow>
              \<not> \<bar>int (card (spec_darkCells g)) * 20 - sizeQ g * sizeQ g * 10\<bar>
                   \<le> (j + 1) * (sizeQ g * sizeQ g)))"
proof
  assume wf: "wellFormed g"
  then have t: "0 < sizeQ g * sizeQ g" by (auto simp: wellFormed_def zero_less_mult_iff)
  have ng: "\<not> (0 < sizeQ g \<and> length (modules g) < nat (sizeQ g))"
    using wf by (simp add: wellFormed_def)
  let ?b = "countBlack (moduleColors (modules g))"
  let ?c = "int (card (spec_darkCells g))"
  let ?t = "sizeQ g * sizeQ g"
  have bc: "?b = ?c" by (rule countBlack_card[OF wf])
  from rule4Loop_least[OF t, of 0 "\<bar>?b * 20 - ?t * 10\<bar>" ?b]
  obtain k where k: "rule4Loop ?b ?t 0 = Some k" "0 \<le> k" "\<bar>?b * 20 - ?t * 10\<bar> \<le> (k + 1) * ?t"
    "\<forall>j. 0 \<le> j \<and> j < k \<longrightarrow> (j + 1) * ?t < \<bar>?b * 20 - ?t * 10\<bar>"
    by auto
  have r: "computePenalties_rule4 g = Some (Inr (10 * k))"
    using k(1) ng by (simp add: computePenalties_rule4_def Let_def PENALTY_N4_def)
  from k(4) have l: "\<forall>j. 0 \<le> j \<and> j < k \<longrightarrow> \<not> \<bar>?b * 20 - ?t * 10\<bar> \<le> (j + 1) * ?t"
    by (simp add: not_le)
  show "\<exists>k. computePenalties_rule4 g = Some (Inr (10 * k)) \<and> 0 \<le> k
        \<and> \<bar>?c * 20 - ?t * 10\<bar> \<le> (k + 1) * ?t
        \<and> (\<forall>j. 0 \<le> j \<and> j < k \<longrightarrow> \<not> \<bar>?c * 20 - ?t * 10\<bar> \<le> (j + 1) * ?t)"
    using r k(2,3) l unfolding bc by blast
qed

theorem penalty_rule4_witness:
  "wellFormed stripedGrid \<and> card (spec_darkCells stripedGrid) = 147
   \<and> computePenalties_rule4 stripedGrid = Some (Inr 30)"
proof -
  have wf: "wellFormed stripedGrid" by code_simp
  have "countBlack (moduleColors (modules stripedGrid)) = 147" by code_simp
  with countBlack_card[OF wf] have c: "card (spec_darkCells stripedGrid) = 147" by simp
  have r: "computePenalties_rule4 stripedGrid = Some (Inr 30)" by code_simp
  from penalty_rule4[of stripedGrid] wf c r show ?thesis by simp
qed

section \<open>Masks\<close>

lemma wellFormed_nth:
  "wellFormed g \<Longrightarrow> x < nat (sizeQ g) \<Longrightarrow> length (modules g ! x) = nat (sizeQ g)"
  by (simp add: wellFormed_def list_all_length)

lemma applyMaskCell_twice: "applyMaskCell a (applyMaskCell a b) = b"
  by (cases a; cases b) auto

lemma applyMaskCell_Unfilled: "applyMaskCell UnfilledModule b = b"
  by simp

lemma maskInvert_Some: "0 \<le> msk \<Longrightarrow> msk \<le> 7 \<Longrightarrow> \<exists>b. maskInvert msk x y = Some b"
  by (simp add: maskInvert_def)

lemma makeMask_ok:
  assumes wf: "wellFormed g" and m: "0 \<le> msk" "msk \<le> 7"
  shows "\<exists>r. makeMask g msk = Inr r \<and> wellFormed r \<and> sizeQ r = sizeQ g
           \<and> (\<forall>x y. x < nat (sizeQ g) \<and> y < nat (sizeQ g) \<longrightarrow>
                 modules r ! x ! y =
                   (if isFunctionModule (modules g ! x ! y) then UnfilledModule
                    else newModule Plain (the (maskInvert msk (int x) (int y)))))"
proof -
  have "maskInvert msk 0 0 \<noteq> None" using maskInvert_Some[OF m, of 0 0] by auto
  then show ?thesis
    using wf
    by (auto simp: makeMask_def QrCode_new_def Let_def wellFormed_def list_all_iff)
qed

lemma applyMask_ok:
  assumes wf: "wellFormed g" "wellFormed m" "sizeQ m = sizeQ g"
  shows "\<exists>r. applyMask g m = Inr r \<and> wellFormed r
           \<and> version r = version g \<and> errorCorrectionLevel r = errorCorrectionLevel g
           \<and> sizeQ r = sizeQ g
           \<and> (\<forall>x y. x < nat (sizeQ g) \<and> y < nat (sizeQ g) \<longrightarrow>
                 modules r ! x ! y = applyMaskCell (modules m ! x ! y) (modules g ! x ! y))"
  using wf by (auto simp: applyMask_def wellFormed_def list_all_iff)

lemma wellFormed_eqI:
  assumes "wellFormed g" "wellFormed r" "version r = version g"
    "errorCorrectionLevel r = errorCorrectionLevel g" "sizeQ r = sizeQ g"
    "\<And>x y. x < nat (sizeQ g) \<Longrightarrow> y < nat (sizeQ g) \<Longrightarrow> modules r ! x ! y = modules g ! x ! y"
  shows "r = g"
proof -
  have "modules r = modules g"
  proof (rule nth_equalityI)
    show "length (modules r) = length (modules g)"
      using assms by (simp add: wellFormed_def)
  next
    fix x assume "x < length (modules r)"
    then have x: "x < nat (sizeQ g)" using assms by (simp add: wellFormed_def)
    show "modules r ! x = modules g ! x"
    proof (rule nth_equalityI)
      show "length (modules r ! x) = length (modules g ! x)"
        using wellFormed_nth[OF assms(1) x] wellFormed_nth[OF assms(2)] x assms(5) by simp
    next
      fix y assume "y < length (modules r ! x)"
      then have "y < nat (sizeQ g)" using wellFormed_nth[OF assms(2)] x assms(5) by simp
      with x show "modules r ! x ! y = modules g ! x ! y" by (rule assms(6))
    qed
  qed
  with assms(3,4,5) show ?thesis by simp
qed

text \<open>
  C2. For a mask index 0 to 7, on a grid that satisfies the class invariant, making the
  mask and applying it succeeds and leaves every function module as it was; a filled
  module that is not a function module keeps its class and has its colour inverted
  exactly where the mask predicate holds.
\<close>

theorem applyMask_keeps_function_modules:
  "wellFormed g \<and> 0 \<le> msk \<and> msk \<le> 7 \<longrightarrow>
     (\<exists>m r. makeMask g msk = Inr m \<and> applyMask g m = Inr r
        \<and> (\<forall>x y. x < nat (sizeQ g) \<and> y < nat (sizeQ g) \<longrightarrow>
              (isFunctionModule (modules g ! x ! y) \<longrightarrow> modules r ! x ! y = modules g ! x ! y)
              \<and> (\<forall>c col n. modules g ! x ! y = FilledModule c col n \<and> \<not> isFunctionClass c \<longrightarrow>
                    modules r ! x ! y
                      = FilledModule c (col \<noteq> the (maskInvert msk (int x) (int y))) n)))"
proof (intro impI, elim conjE)
  assume wf: "wellFormed g" and k: "0 \<le> msk" "msk \<le> 7"
  from makeMask_ok[OF wf k] obtain m where
    m: "makeMask g msk = Inr m" "wellFormed m" "sizeQ m = sizeQ g"
       "\<And>x y. x < nat (sizeQ g) \<Longrightarrow> y < nat (sizeQ g) \<Longrightarrow>
                 modules m ! x ! y =
                   (if isFunctionModule (modules g ! x ! y) then UnfilledModule
                    else newModule Plain (the (maskInvert msk (int x) (int y))))"
    by blast
  from applyMask_ok[OF wf m(2,3)] obtain r where
    r: "applyMask g m = Inr r"
       "\<And>x y. x < nat (sizeQ g) \<Longrightarrow> y < nat (sizeQ g) \<Longrightarrow>
                 modules r ! x ! y = applyMaskCell (modules m ! x ! y) (modules g ! x ! y)"
    by blast
  show "\<exists>m r. makeMask g msk = Inr m \<and> applyMask g m = Inr r
        \<and> (\<forall>x y. x < nat (sizeQ g) \<and> y < nat (sizeQ g) \<longrightarrow>
              (isFunctionModule (modules g ! x ! y) \<longrightarrow> modules r ! x ! y = modules g ! x ! y)
              \<and> (\<forall>c col n. modules g ! x ! y = FilledModule c col n \<and> \<not> isFunctionClass c \<longrightarrow>
                    modules r ! x ! y
                      = FilledModule c (col \<noteq> the (maskInvert msk (int x) (int y))) n))"
    using m(1) r(1) by (auto simp: r(2) m(4) newModule_def)
qed

theorem applyMask_keeps_function_modules_witness:
  "wellFormed sampleGrid \<and> (0::int) \<le> 3 \<and> (3::int) \<le> 7
   \<and> (\<exists>m r. makeMask sampleGrid 3 = Inr m \<and> applyMask sampleGrid m = Inr r
         \<and> modules r ! 6 ! 0 = FilledModule TimingModule True True
         \<and> modules r ! 0 ! 0 = FilledModule CodewordModule True True
         \<and> modules r ! 0 ! 1 = FilledModule CodewordModule False True)"
proof -
  have wf: "wellFormed sampleGrid" by code_simp
  have c: "modules sampleGrid ! 6 ! 0 = FilledModule TimingModule True True"
    "modules sampleGrid ! 0 ! 0 = FilledModule CodewordModule False True"
    "modules sampleGrid ! 0 ! 1 = FilledModule CodewordModule False True"
    by code_simp+
  have s: "sizeQ sampleGrid = 21" by (simp add: sampleGrid_def)
  have i: "maskInvert 3 (int 0) (int 0) = Some True" "maskInvert 3 (int 0) (int 1) = Some False"
    by (simp_all add: maskInvert_def)
  from applyMask_keeps_function_modules [of sampleGrid 3] wf obtain m r where
    mr: "makeMask sampleGrid 3 = Inr m" "applyMask sampleGrid m = Inr r"
    and a: "\<forall>x y. x < nat (sizeQ sampleGrid) \<and> y < nat (sizeQ sampleGrid) \<longrightarrow>
              (isFunctionModule (modules sampleGrid ! x ! y) \<longrightarrow>
                 modules r ! x ! y = modules sampleGrid ! x ! y)
              \<and> (\<forall>c col n. modules sampleGrid ! x ! y = FilledModule c col n
                      \<and> \<not> isFunctionClass c \<longrightarrow>
                    modules r ! x ! y
                      = FilledModule c (col \<noteq> the (maskInvert 3 (int x) (int y))) n)"
    by auto
  from a[rule_format, of 6 0] a[rule_format, of 0 0] a[rule_format, of 0 1]
  have "modules r ! 6 ! 0 = FilledModule TimingModule True True"
    "modules r ! 0 ! 0 = FilledModule CodewordModule True True"
    "modules r ! 0 ! 1 = FilledModule CodewordModule False True"
    using c s i by auto
  with wf mr show ?thesis by auto
qed

text \<open>
  C3. On a grid that satisfies the class invariant and whose cells are all filled, for a
  mask index 0 to 7, applying the mask made from the grid twice gives back the grid:
  every cell, and so every data or remainder cell, has its first colour again.
\<close>

theorem applyMask_involution:
  "wellFormed g \<and> list_all (list_all isFilledModule) (modules g) \<and> 0 \<le> msk \<and> msk \<le> 7 \<longrightarrow>
     (\<exists>m r. makeMask g msk = Inr m \<and> applyMask g m = Inr r \<and> applyMask r m = Inr g)"
proof (intro impI, elim conjE)
  assume wf: "wellFormed g" and k: "0 \<le> msk" "msk \<le> 7"
  from makeMask_ok[OF wf k] obtain m where
    m: "makeMask g msk = Inr m" "wellFormed m" "sizeQ m = sizeQ g" by blast
  from applyMask_ok[OF wf m(2,3)] obtain r where
    r: "applyMask g m = Inr r" "wellFormed r" "version r = version g"
       "errorCorrectionLevel r = errorCorrectionLevel g" "sizeQ r = sizeQ g"
       "\<And>x y. x < nat (sizeQ g) \<Longrightarrow> y < nat (sizeQ g) \<Longrightarrow>
                 modules r ! x ! y = applyMaskCell (modules m ! x ! y) (modules g ! x ! y)"
    by blast
  have ms: "sizeQ m = sizeQ r" using m(3) r(5) by simp
  from applyMask_ok[OF r(2) m(2) ms] obtain r2 where
    r2: "applyMask r m = Inr r2" "wellFormed r2" "version r2 = version r"
       "errorCorrectionLevel r2 = errorCorrectionLevel r" "sizeQ r2 = sizeQ r"
       "\<And>x y. x < nat (sizeQ r) \<Longrightarrow> y < nat (sizeQ r) \<Longrightarrow>
                 modules r2 ! x ! y = applyMaskCell (modules m ! x ! y) (modules r ! x ! y)"
    by blast
  have "r2 = g"
    by (rule wellFormed_eqI[OF wf r2(2)])
       (simp_all add: r2 r applyMaskCell_twice)
  with m(1) r(1) r2(1) show "\<exists>m r. makeMask g msk = Inr m \<and> applyMask g m = Inr r \<and> applyMask r m = Inr g"
    by auto
qed

theorem applyMask_involution_witness:
  "wellFormed sampleGrid \<and> list_all (list_all isFilledModule) (modules sampleGrid)
   \<and> (0::int) \<le> 3 \<and> (3::int) \<le> 7
   \<and> (\<exists>m r. makeMask sampleGrid 3 = Inr m \<and> applyMask sampleGrid m = Inr r
         \<and> applyMask r m = Inr sampleGrid)"
proof -
  have wf: "wellFormed sampleGrid" by code_simp
  have f: "list_all (list_all isFilledModule) (modules sampleGrid)" by code_simp
  from applyMask_involution [of sampleGrid 3] wf f show ?thesis by simp
qed

section \<open>Assignments on a square grid\<close>

lemma wellFormed_square: "wellFormed g \<Longrightarrow> square (nat (sizeQ g)) (modules g)"
  unfolding wellFormed_def square_def by blast

lemma inGrid_square: "square n ms \<Longrightarrow> inGrid ms x y = inside n x y"
  by (auto simp: square_def inGrid_def inside_def list_all_length)

lemma getModule_square:
  "square n ms \<Longrightarrow> getModule ms x y = (if inside n x y then Some (ms ! nat x ! nat y) else None)"
  by (simp add: getModule_def inGrid_square)

lemma setModule_square:
  assumes "square n ms" "inside n x y"
  shows "\<exists>ms'. setModule x y m ms = Inr ms' \<and> square n ms'
           \<and> (\<forall>x' y'. inside n x' y' \<longrightarrow>
                 ms' ! nat x' ! nat y' = (if x' = x \<and> y' = y then m else ms ! nat x' ! nat y'))"
proof -
  let ?ms' = "ms[nat x := (ms ! nat x)[nat y := m]]"
  have s: "setModule x y m ms = Inr ?ms'"
    using assms by (auto simp: setModule_def square_def inside_def list_all_length)
  have q: "square n ?ms'"
    using assms by (auto simp: square_def inside_def list_all_length nth_list_update)
  have c: "?ms' ! nat x' ! nat y' = (if x' = x \<and> y' = y then m else ms ! nat x' ! nat y')"
    if "inside n x' y'" for x' y'
    using assms that
    by (auto simp: square_def inside_def list_all_length nth_list_update nat_eq_iff)
  from s q c show ?thesis by blast
qed

lemma cellAfter_Cons:
  "cellAfter ((x, y, m) # ws) m0 x' y' = cellAfter ws (if x = x' \<and> y = y' then m else m0) x' y'"
  by (simp add: cellAfter_def)

lemma drawModules_square:
  "square n ms \<Longrightarrow> list_all (\<lambda>p. inside n (fst p) (snd p)) (writePos ws) \<Longrightarrow>
   \<exists>ms'. drawModules ws ms = Inr ms' \<and> square n ms'
     \<and> (\<forall>x y. inside n x y \<longrightarrow> ms' ! nat x ! nat y = cellAfter ws (ms ! nat x ! nat y) x y)"
proof (induction ws arbitrary: ms)
  case Nil
  then show ?case by (simp add: cellAfter_def)
next
  case (Cons w ws)
  obtain x y m where w: "w = (x, y, m)" by (cases w) auto
  have i: "inside n x y" using Cons.prems(2) w by (simp add: writePos_def)
  from setModule_square[OF Cons.prems(1) i, of m] obtain ms1 where
    ms1: "setModule x y m ms = Inr ms1" "square n ms1"
      "\<And>x' y'. inside n x' y' \<Longrightarrow>
          ms1 ! nat x' ! nat y' = (if x' = x \<and> y' = y then m else ms ! nat x' ! nat y')"
    by blast
  have r: "list_all (\<lambda>p. inside n (fst p) (snd p)) (writePos ws)"
    using Cons.prems(2) by (simp add: writePos_def)
  from Cons.IH[OF ms1(2) r] obtain ms' where
    ms': "drawModules ws ms1 = Inr ms'" "square n ms'"
      "\<And>x y. inside n x y \<Longrightarrow> ms' ! nat x ! nat y = cellAfter ws (ms1 ! nat x ! nat y) x y"
    by blast
  show ?case
    using ms1(1) ms'(1,2) by (auto simp: w ms'(3) ms1(3) cellAfter_Cons)
qed

lemma cellAfter_notin: "(x, y) \<notin> set (writePos ws) \<Longrightarrow> cellAfter ws m0 x y = m0"
  by (induction ws arbitrary: m0) (auto simp: cellAfter_def writePos_def)

lemma cellAfter_in:
  "(x, y) \<in> set (writePos ws) \<Longrightarrow> \<exists>m. (x, y, m) \<in> set ws \<and> cellAfter ws m0 x y = m"
proof (induction ws arbitrary: m0)
  case Nil
  then show ?case by (simp add: writePos_def)
next
  case (Cons w ws)
  obtain x' y' m where w: "w = (x', y', m)" by (cases w) auto
  show ?case
  proof (cases "(x, y) \<in> set (writePos ws)")
    case True
    from Cons.IH[OF True] show ?thesis by (auto simp: w cellAfter_Cons)
  next
    case False
    with Cons.prems have "x' = x \<and> y' = y" by (auto simp: w writePos_def)
    with False show ?thesis by (auto simp: w cellAfter_Cons cellAfter_notin)
  qed
qed

lemma cellAfter_distinct:
  "distinct (writePos ws) \<Longrightarrow> (x, y, m) \<in> set ws \<Longrightarrow> cellAfter ws m0 x y = m"
proof (induction ws arbitrary: m0)
  case Nil
  then show ?case by simp
next
  case (Cons w ws)
  obtain x' y' m' where w: "w = (x', y', m')" by (cases w) auto
  show ?case
  proof (cases "(x, y, m) \<in> set ws")
    case True
    then show ?thesis using Cons by (auto simp: w cellAfter_Cons writePos_def)
  next
    case False
    with Cons.prems have e: "x' = x" "y' = y" "m' = m" by (auto simp: w)
    have "(x, y) \<notin> set (writePos ws)" using Cons.prems(1) e by (auto simp: w writePos_def)
    then show ?thesis by (simp add: w e cellAfter_Cons cellAfter_notin)
  qed
qed

lemma cellAfter_unfilled:
  "list_all (\<lambda>w. isFilledModule (snd (snd w))) ws \<Longrightarrow>
   cellAfter ws m0 x y = UnfilledModule \<longleftrightarrow> m0 = UnfilledModule \<and> (x, y) \<notin> set (writePos ws)"
proof (cases "(x, y) \<in> set (writePos ws)")
  case True
  assume f: "list_all (\<lambda>w. isFilledModule (snd (snd w))) ws"
  from cellAfter_in[OF True, of m0] obtain m where
    m: "(x, y, m) \<in> set ws" "cellAfter ws m0 x y = m" by blast
  from f m(1) have "isFilledModule m" by (auto simp: list_all_iff)
  then have "m \<noteq> UnfilledModule" by auto
  with m True show ?thesis by simp
next
  case False
  then show ?thesis by (simp add: cellAfter_notin)
qed

section \<open>Format information\<close>

lemma formatWrites_unfold:
  "formatWrites sz bits =
     [(8, 0, newModule FormatInfoModule (getBit bits 0)),
      (8, 1, newModule FormatInfoModule (getBit bits 1)),
      (8, 2, newModule FormatInfoModule (getBit bits 2)),
      (8, 3, newModule FormatInfoModule (getBit bits 3)),
      (8, 4, newModule FormatInfoModule (getBit bits 4)),
      (8, 5, newModule FormatInfoModule (getBit bits 5)),
      (8, 7, newModule FormatInfoModule (getBit bits 6)),
      (8, 8, newModule FormatInfoModule (getBit bits 7)),
      (7, 8, newModule FormatInfoModule (getBit bits 8)),
      (5, 8, newModule FormatInfoModule (getBit bits 9)),
      (4, 8, newModule FormatInfoModule (getBit bits 10)),
      (3, 8, newModule FormatInfoModule (getBit bits 11)),
      (2, 8, newModule FormatInfoModule (getBit bits 12)),
      (1, 8, newModule FormatInfoModule (getBit bits 13)),
      (0, 8, newModule FormatInfoModule (getBit bits 14)),
      (sz - 1, 8, newModule FormatInfoModule (getBit bits 0)),
      (sz - 2, 8, newModule FormatInfoModule (getBit bits 1)),
      (sz - 3, 8, newModule FormatInfoModule (getBit bits 2)),
      (sz - 4, 8, newModule FormatInfoModule (getBit bits 3)),
      (sz - 5, 8, newModule FormatInfoModule (getBit bits 4)),
      (sz - 6, 8, newModule FormatInfoModule (getBit bits 5)),
      (sz - 7, 8, newModule FormatInfoModule (getBit bits 6)),
      (sz - 8, 8, newModule FormatInfoModule (getBit bits 7)),
      (8, sz - 7, newModule FormatInfoModule (getBit bits 8)),
      (8, sz - 6, newModule FormatInfoModule (getBit bits 9)),
      (8, sz - 5, newModule FormatInfoModule (getBit bits 10)),
      (8, sz - 4, newModule FormatInfoModule (getBit bits 11)),
      (8, sz - 3, newModule FormatInfoModule (getBit bits 12)),
      (8, sz - 2, newModule FormatInfoModule (getBit bits 13)),
      (8, sz - 1, newModule FormatInfoModule (getBit bits 14)),
      (8, sz - 8, newModule BlackModule True)]"
proof -
  have u: "[0..<6] = [0, 1, 2, 3, 4, 5 :: nat]" "[9..<15] = [9, 10, 11, 12, 13, 14 :: nat]"
    "[0..<8] = [0, 1, 2, 3, 4, 5, 6, 7 :: nat]" "[8..<15] = [8, 9, 10, 11, 12, 13, 14 :: nat]"
    by code_simp+
  show ?thesis by (simp add: formatWrites_def u)
qed

lemma formatWrites_inside:
  "21 \<le> sz \<Longrightarrow> list_all (\<lambda>p. inside (nat sz) (fst p) (snd p)) (writePos (formatWrites sz bits))"
  by (simp add: formatWrites_unfold writePos_def inside_def)

lemma lt15: "i < 15 \<Longrightarrow> i \<in> {0, 1, 2, 3, 4, 5, 6, 7, 8, 9, 10, 11, 12, 13, 14 :: nat}"
  by simp arith

lemma formatWrites_cell1:
  assumes "21 \<le> sz" "i < 15"
  shows "cellAfter (formatWrites sz bits) m0 (fst (formatPos1 i)) (snd (formatPos1 i))
           = newModule FormatInfoModule (getBit bits i)"
  using lt15[OF assms(2)] assms(1)
  by (elim insertE) (simp_all add: formatWrites_unfold cellAfter_def formatPos1_def)

lemma formatWrites_cell2:
  assumes "21 \<le> sz" "i < 15"
  shows "cellAfter (formatWrites sz bits) m0 (fst (formatPos2 sz i)) (snd (formatPos2 sz i))
           = newModule FormatInfoModule (getBit bits i)"
  using lt15[OF assms(2)] assms(1)
  by (elim insertE) (simp_all add: formatWrites_unfold cellAfter_def formatPos2_def)

lemma formatWrites_black:
  assumes "21 \<le> sz"
  shows "cellAfter (formatWrites sz bits) m0 8 (sz - 8) = newModule BlackModule True"
  using assms by (simp add: formatWrites_unfold cellAfter_def)

lemma formatPos_inside:
  "21 \<le> sz \<Longrightarrow> i < 15 \<Longrightarrow>
   inside (nat sz) (fst (formatPos1 i)) (snd (formatPos1 i))
   \<and> inside (nat sz) (fst (formatPos2 sz i)) (snd (formatPos2 sz i))"
  by (auto simp: formatPos1_def formatPos2_def inside_def)

lemma formatField_table:
  "list_all (formatFieldAgrees LOW) [0, 1, 2, 3, 4, 5, 6, 7]
   \<and> list_all (formatFieldAgrees MEDIUM) [0, 1, 2, 3, 4, 5, 6, 7]
   \<and> list_all (formatFieldAgrees QUARTILE) [0, 1, 2, 3, 4, 5, 6, 7]
   \<and> list_all (formatFieldAgrees HIGH) [0, 1, 2, 3, 4, 5, 6, 7]"
  by code_simp

lemma formatField_spec:
  assumes "0 \<le> msk" "msk \<le> 7"
  shows "formatField ecl msk = spec_formatField (formatBits ecl) msk
         \<and> drop_bit 15 (formatField ecl msk) = 0"
proof -
  from assms have "msk \<in> set [0, 1, 2, 3, 4, 5, 6, 7]" by auto
  with formatField_table have "formatFieldAgrees ecl msk"
    unfolding list_all_iff by (cases ecl) blast+
  then show ?thesis unfolding formatFieldAgrees_def by blast
qed

lemma formatField_blank: "formatField ecl (-1) = 0"
  by (simp add: formatField_def)

lemma formatField_fits:
  assumes "-1 \<le> msk" "msk \<le> 7"
  shows "drop_bit 15 (formatField ecl msk) = 0"
proof (cases "msk = -1")
  case True
  then show ?thesis by (simp add: formatField_blank)
next
  case False
  with assms have "0 \<le> msk" by simp
  from formatField_spec[OF this assms(2), of ecl] show ?thesis by blast
qed

lemma getBit_0: "getBit 0 i = False"
  by (simp add: getBit_def)

lemma wellFormed_21: "wellFormed g \<Longrightarrow> 1 \<le> version g \<Longrightarrow> 21 \<le> sizeQ g"
  by (simp add: wellFormed_def)

lemma withModules_wellFormed:
  "wellFormed g \<Longrightarrow> square (nat (sizeQ g)) ms \<Longrightarrow> wellFormed (g\<lparr>modules := ms\<rparr>)"
  by (simp add: wellFormed_def square_def)

lemma drawFormatBits_cells:
  assumes wf: "wellFormed g" and v: "1 \<le> version g" and m: "-1 \<le> msk" "msk \<le> 7"
  shows "\<exists>r. drawFormatBits g msk = Inr r \<and> wellFormed r
           \<and> list_all (\<lambda>i.
                 getModule (modules r) (fst (formatPos1 i)) (snd (formatPos1 i))
                   = Some (newModule FormatInfoModule
                             (getBit (formatField (errorCorrectionLevel g) msk) i))
                 \<and> getModule (modules r) (fst (formatPos2 (sizeQ g) i)) (snd (formatPos2 (sizeQ g) i))
                   = Some (newModule FormatInfoModule
                             (getBit (formatField (errorCorrectionLevel g) msk) i)))
               [0..<15]
           \<and> getModule (modules r) 8 (sizeQ g - 8) = Some (newModule BlackModule True)"
proof -
  let ?bits = "formatField (errorCorrectionLevel g) msk"
  let ?n = "nat (sizeQ g)"
  have s: "21 \<le> sizeQ g" by (rule wellFormed_21[OF wf v])
  have sq: "square ?n (modules g)" by (rule wellFormed_square[OF wf])
  from drawModules_square[OF sq formatWrites_inside[OF s, of ?bits]] obtain ms where
    ms: "drawModules (formatWrites (sizeQ g) ?bits) (modules g) = Inr ms" "square ?n ms"
      "\<And>x y. inside ?n x y \<Longrightarrow>
          ms ! nat x ! nat y = cellAfter (formatWrites (sizeQ g) ?bits) (modules g ! nat x ! nat y) x y"
    by blast
  have d: "drawFormatBits g msk = Inr (g\<lparr>modules := ms\<rparr>)"
    by (simp add: drawFormatBits_def Let_def formatField_fits[OF m] ms(1) withModules_def)
  have c: "getModule ms (fst (formatPos1 i)) (snd (formatPos1 i))
             = Some (newModule FormatInfoModule (getBit ?bits i))
           \<and> getModule ms (fst (formatPos2 (sizeQ g) i)) (snd (formatPos2 (sizeQ g) i))
             = Some (newModule FormatInfoModule (getBit ?bits i))" if "i < 15" for i
    using formatPos_inside[OF s that] formatWrites_cell1[OF s that] formatWrites_cell2[OF s that]
    by (simp add: getModule_square[OF ms(2)] ms(3))
  have bi: "inside ?n 8 (sizeQ g - 8)" using s by (simp add: inside_def)
  have b: "getModule ms 8 (sizeQ g - 8) = Some (newModule BlackModule True)"
    using bi ms(3)[OF bi] formatWrites_black[OF s, of ?bits]
    by (simp add: getModule_square[OF ms(2)])
  show ?thesis
    using d c b withModules_wellFormed[OF wf ms(2)] by (simp add: list_all_iff)
qed

text \<open>
  C4. For every level and every mask index from 0 to 7, the field that
  \<^verbatim>\<open>drawFormatBits\<close> computes is the one of the specification, built from
  \<^verbatim>\<open>levelFormatCode<<3 | maskIndex\<close> and the remainder of ten rounds of
  \<^verbatim>\<open>rem = (rem<<1) ^ ((rem>>>9)&1)*0x537\<close> as \<^verbatim>\<open>(data<<10 | rem) ^ 0x5412\<close>, and it
  fits in 15 bits; for the mask index -1 the field is zero. On a well-formed grid of
  version 1 or more the call succeeds and leaves bit \<open>i\<close> of the field in both cells of
  that bit, for every \<open>i < 15\<close>; with the mask index -1 each of these cells is a light
  format-information module.
\<close>

theorem drawFormatBits_field:
  "(0 \<le> msk \<and> msk \<le> 7 \<longrightarrow>
      formatField ecl msk = spec_formatField (formatBits ecl) msk
      \<and> drop_bit 15 (formatField ecl msk) = 0)
   \<and> formatField ecl (-1) = 0
   \<and> (wellFormed g \<and> 1 \<le> version g \<and> -1 \<le> msk \<and> msk \<le> 7 \<longrightarrow>
        (\<exists>r. drawFormatBits g msk = Inr r
           \<and> list_all (\<lambda>i.
                 getModule (modules r) (fst (formatPos1 i)) (snd (formatPos1 i))
                   = Some (newModule FormatInfoModule
                             (getBit (formatField (errorCorrectionLevel g) msk) i))
                 \<and> getModule (modules r) (fst (formatPos2 (sizeQ g) i)) (snd (formatPos2 (sizeQ g) i))
                   = Some (newModule FormatInfoModule
                             (getBit (formatField (errorCorrectionLevel g) msk) i)))
               [0..<15]))
   \<and> (wellFormed g \<and> 1 \<le> version g \<longrightarrow>
        (\<exists>r. drawFormatBits g (-1) = Inr r
           \<and> list_all (\<lambda>i.
                 getModule (modules r) (fst (formatPos1 i)) (snd (formatPos1 i))
                   = Some (FilledModule FormatInfoModule False True)
                 \<and> getModule (modules r) (fst (formatPos2 (sizeQ g) i)) (snd (formatPos2 (sizeQ g) i))
                   = Some (FilledModule FormatInfoModule False True))
               [0..<15]))"
proof (intro conjI impI)
  assume "0 \<le> msk \<and> msk \<le> 7"
  then show "formatField ecl msk = spec_formatField (formatBits ecl) msk"
    and "drop_bit 15 (formatField ecl msk) = 0"
    using formatField_spec[of msk ecl] by blast+
next
  show "formatField ecl (-1) = 0" by (rule formatField_blank)
next
  assume "wellFormed g \<and> 1 \<le> version g \<and> -1 \<le> msk \<and> msk \<le> 7"
  then show "\<exists>r. drawFormatBits g msk = Inr r
           \<and> list_all (\<lambda>i.
                 getModule (modules r) (fst (formatPos1 i)) (snd (formatPos1 i))
                   = Some (newModule FormatInfoModule
                             (getBit (formatField (errorCorrectionLevel g) msk) i))
                 \<and> getModule (modules r) (fst (formatPos2 (sizeQ g) i)) (snd (formatPos2 (sizeQ g) i))
                   = Some (newModule FormatInfoModule
                             (getBit (formatField (errorCorrectionLevel g) msk) i)))
               [0..<15]"
    using drawFormatBits_cells[of g msk] by blast
next
  assume "wellFormed g \<and> 1 \<le> version g"
  then show "\<exists>r. drawFormatBits g (-1) = Inr r
           \<and> list_all (\<lambda>i.
                 getModule (modules r) (fst (formatPos1 i)) (snd (formatPos1 i))
                   = Some (FilledModule FormatInfoModule False True)
                 \<and> getModule (modules r) (fst (formatPos2 (sizeQ g) i)) (snd (formatPos2 (sizeQ g) i))
                   = Some (FilledModule FormatInfoModule False True))
               [0..<15]"
    using drawFormatBits_cells[of g "-1"]
    by (auto simp: formatField_blank getBit_0 newModule_def)
qed

theorem drawFormatBits_field_witness:
  "formatField LOW 3 = spec_formatField 1 3 \<and> formatField LOW 3 = 0x789D
   \<and> formatField LOW (-1) = 0
   \<and> (\<exists>r. drawFormatBits sampleGrid 3 = Inr r
        \<and> getModule (modules r) 8 0 = Some (FilledModule FormatInfoModule True True)
        \<and> getModule (modules r) 20 8 = Some (FilledModule FormatInfoModule True True)
        \<and> getModule (modules r) 8 5 = Some (FilledModule FormatInfoModule False True)
        \<and> getModule (modules r) 15 8 = Some (FilledModule FormatInfoModule False True))
   \<and> (\<exists>r. drawFormatBits sampleGrid (-1) = Inr r
        \<and> getModule (modules r) 8 0 = Some (FilledModule FormatInfoModule False True)
        \<and> getModule (modules r) 20 8 = Some (FilledModule FormatInfoModule False True))"
proof -
  have wf: "wellFormed sampleGrid \<and> 1 \<le> version sampleGrid" by code_simp
  have h: "(0::int) \<le> 3 \<and> (3::int) \<le> 7" "(-1::int) \<le> 3" by simp_all
  have e: "errorCorrectionLevel sampleGrid = LOW" "sizeQ sampleGrid = 21"
    by (simp_all add: sampleGrid_def)
  have f: "formatField LOW 3 = 0x789D" by code_simp
  have b: "getBit (0x789D :: 32 word) 0 = True" "getBit (0x789D :: 32 word) 5 = False"
    by code_simp+
  have p: "formatPos1 0 = (8, 0)" "formatPos1 5 = (8, 5)"
    "formatPos2 21 0 = (20, 8)" "formatPos2 21 5 = (15, 8)"
    by (simp_all add: formatPos1_def formatPos2_def)
  note t = drawFormatBits_field[of 3 LOW sampleGrid]
  from t h have a1: "formatField LOW 3 = spec_formatField (formatBits LOW) 3" by blast
  from t have a2: "formatField LOW (-1) = 0" by blast
  from t wf h obtain r where r: "drawFormatBits sampleGrid 3 = Inr r"
    "list_all (\<lambda>i.
         getModule (modules r) (fst (formatPos1 i)) (snd (formatPos1 i))
           = Some (newModule FormatInfoModule
                     (getBit (formatField (errorCorrectionLevel sampleGrid) 3) i))
         \<and> getModule (modules r) (fst (formatPos2 (sizeQ sampleGrid) i))
               (snd (formatPos2 (sizeQ sampleGrid) i))
           = Some (newModule FormatInfoModule
                     (getBit (formatField (errorCorrectionLevel sampleGrid) 3) i)))
       [0..<15]"
    by blast
  from t wf obtain r' where r': "drawFormatBits sampleGrid (-1) = Inr r'"
    "list_all (\<lambda>i.
         getModule (modules r') (fst (formatPos1 i)) (snd (formatPos1 i))
           = Some (FilledModule FormatInfoModule False True)
         \<and> getModule (modules r') (fst (formatPos2 (sizeQ sampleGrid) i))
               (snd (formatPos2 (sizeQ sampleGrid) i))
           = Some (FilledModule FormatInfoModule False True))
       [0..<15]"
    by blast
  have A: "getModule (modules r) (fst (formatPos1 i)) (snd (formatPos1 i))
           = Some (newModule FormatInfoModule (getBit 0x789D i))
         \<and> getModule (modules r) (fst (formatPos2 21 i)) (snd (formatPos2 21 i))
           = Some (newModule FormatInfoModule (getBit 0x789D i))" if "i < 15" for i
    using r(2) that unfolding list_all_iff e f by simp
  have A': "getModule (modules r') (fst (formatPos1 i)) (snd (formatPos1 i))
           = Some (FilledModule FormatInfoModule False True)
         \<and> getModule (modules r') (fst (formatPos2 21 i)) (snd (formatPos2 21 i))
           = Some (FilledModule FormatInfoModule False True)" if "i < 15" for i
    using r'(2) that unfolding list_all_iff e by simp
  from A[of 0] A[of 5] have c:
    "getModule (modules r) 8 0 = Some (FilledModule FormatInfoModule True True)"
    "getModule (modules r) 20 8 = Some (FilledModule FormatInfoModule True True)"
    "getModule (modules r) 8 5 = Some (FilledModule FormatInfoModule False True)"
    "getModule (modules r) 15 8 = Some (FilledModule FormatInfoModule False True)"
    by (simp_all add: p b newModule_def)
  from A'[of 0] have c':
    "getModule (modules r') 8 0 = Some (FilledModule FormatInfoModule False True)"
    "getModule (modules r') 20 8 = Some (FilledModule FormatInfoModule False True)"
    by (simp_all add: p)
  have fb: "formatBits LOW = 1" by simp
  show ?thesis using a1 a2 f r(1) r'(1) c c' unfolding fb by blast
qed

section \<open>Cells filled by the function patterns\<close>

lemma rectCells_inter: "rectCells (rectInter r s) = rectCells r \<inter> rectCells s"
  by (cases r; cases s) (auto simp: rectCells_def rectInter_def)

lemma rectCells_empty: "\<not> rectNonempty r \<Longrightarrow> rectCells r = {}"
  by (cases r) (auto simp: rectCells_def rectNonempty_def)

lemma finite_rectCells: "finite (rectCells r)"
  by (cases r) (simp add: rectCells_def)

lemma card_rectCells: "int (card (rectCells r)) = rectArea r"
  by (cases r) (auto simp: rectCells_def rectArea_def card_cartesian_product nat_mult_distrib)

lemma rectsCells_simps:
  "rectsCells [] = {}" "rectsCells (r # rs) = rectCells r \<union> rectsCells rs"
  "rectsCells (rs @ ss) = rectsCells rs \<union> rectsCells ss"
  by (auto simp: rectsCells_def)

lemma finite_rectsCells: "finite (rectsCells rs)"
  by (simp add: rectsCells_def finite_rectCells)

lemma rectsCells_inter:
  "rectsCells (filter rectNonempty (map (rectInter r) rs)) = rectCells r \<inter> rectsCells rs"
proof -
  have "rectsCells (filter rectNonempty (map (rectInter r) rs))
          = (\<Union>s\<in>set rs. rectCells (rectInter r s))"
    using rectCells_empty by (fastforce simp: rectsCells_def)
  then show ?thesis by (auto simp: rectCells_inter rectsCells_def)
qed

lemma unionArea_card: "int (card (rectsCells rs)) = unionArea rs"
proof (induction rs rule: unionArea.induct)
  case 1
  then show ?case by (simp add: rectsCells_simps)
next
  case (2 r rs)
  have "card (rectCells r) + card (rectsCells rs)
          = card (rectCells r \<union> rectsCells rs) + card (rectCells r \<inter> rectsCells rs)"
    by (rule card_Un_Int) (simp_all add: finite_rectCells finite_rectsCells)
  then have "int (card (rectCells r \<union> rectsCells rs))
          = int (card (rectCells r)) + int (card (rectsCells rs))
            - int (card (rectCells r \<inter> rectsCells rs))"
    by linarith
  then show ?case
    using 2 by (simp add: rectsCells_simps card_rectCells rectsCells_inter)
qed

lemma rectWithin_cells:
  "rectWithin sz r \<Longrightarrow> rectCells r \<subseteq> {0..sz - 1} \<times> {0..sz - 1}"
  by (cases r) (auto simp: rectWithin_def rectCells_def)

lemma rectsWithin_cells:
  "list_all (rectWithin sz) rs \<Longrightarrow> rectsCells rs \<subseteq> {0..sz - 1} \<times> {0..sz - 1}"
  using rectWithin_cells by (fastforce simp: rectsCells_def list_all_iff)

lemma set_writePos: "set (writePos ws) = (\<lambda>w. (fst w, fst (snd w))) ` set ws"
  by (simp add: writePos_def)

lemma writePos_append: "writePos (a @ b) = writePos a @ writePos b"
  by (simp add: writePos_def)

lemma set_writePos_concat_map:
  "set (writePos (concat (map f xs))) = (\<Union>x\<in>set xs. set (writePos (f x)))"
  by (auto simp: writePos_def)

lemma list_all_concat_map: "(\<And>x. list_all P (f x)) \<Longrightarrow> list_all P (concat (map f xs))"
  by (induction xs) auto

lemma timingWrites_pos: "set (writePos (timingWrites sz)) = rectsCells (timingRects sz)"
proof (rule set_eqI)
  fix p :: "int \<times> int"
  obtain x y where p: "p = (x, y)" by (cases p)
  have "p \<in> set (writePos (timingWrites sz))
          \<longleftrightarrow> (\<exists>i\<in>{0..sz - 1}. (x = 6 \<and> y = i) \<or> (x = i \<and> y = 6))"
    unfolding timingWrites_def set_writePos_concat_map set_upto
    by (auto simp: p set_writePos)
  also have "\<dots> \<longleftrightarrow> (x = 6 \<and> 0 \<le> y \<and> y \<le> sz - 1) \<or> (0 \<le> x \<and> x \<le> sz - 1 \<and> y = 6)"
    by auto
  also have "\<dots> \<longleftrightarrow> p \<in> rectsCells (timingRects sz)"
    by (auto simp: p timingRects_def rectsCells_def rectCells_def)
  finally show "p \<in> set (writePos (timingWrites sz)) \<longleftrightarrow> p \<in> rectsCells (timingRects sz)" .
qed

lemma timingWrites_filled: "list_all (\<lambda>w. isFilledModule (snd (snd w))) (timingWrites sz)"
  unfolding timingWrites_def
  by (rule list_all_concat_map) (simp add: newModule_def)

lemma finderCell_pos:
  "set (writePos (finderCell sz cx cy dy dx)) =
     (if 0 \<le> cx + dx \<and> cx + dx < sz \<and> 0 \<le> cy + dy \<and> cy + dy < sz
      then {(cx + dx, cy + dy)} else {})"
  by (simp add: finderCell_def Let_def set_writePos)

lemma finderCentre_pos:
  "(\<Union>dy\<in>{-4..4}. \<Union>dx\<in>{-4..4}. set (writePos (finderCell sz cx cy dy dx)))
     = rectCells (rectInter (cx - 4, cx + 4, cy - 4, cy + 4) (0, sz - 1, 0, sz - 1))"
proof (rule set_eqI)
  fix p :: "int \<times> int"
  obtain x y where p: "p = (x, y)" by (cases p)
  have "p \<in> (\<Union>dy\<in>{-4..4}. \<Union>dx\<in>{-4..4}. set (writePos (finderCell sz cx cy dy dx)))
        \<longleftrightarrow> (\<exists>dy\<in>{-4..4}. \<exists>dx\<in>{-4..4}. x = cx + dx \<and> y = cy + dy
               \<and> 0 \<le> x \<and> x < sz \<and> 0 \<le> y \<and> y < sz)"
    by (auto simp: p finderCell_pos)
  also have "\<dots> \<longleftrightarrow> cx - 4 \<le> x \<and> x \<le> cx + 4 \<and> cy - 4 \<le> y \<and> y \<le> cy + 4
               \<and> 0 \<le> x \<and> x < sz \<and> 0 \<le> y \<and> y < sz"
  proof
    assume "\<exists>dy\<in>{-4..4}. \<exists>dx\<in>{-4..4}. x = cx + dx \<and> y = cy + dy
               \<and> 0 \<le> x \<and> x < sz \<and> 0 \<le> y \<and> y < sz"
    then show "cx - 4 \<le> x \<and> x \<le> cx + 4 \<and> cy - 4 \<le> y \<and> y \<le> cy + 4
               \<and> 0 \<le> x \<and> x < sz \<and> 0 \<le> y \<and> y < sz" by auto
  next
    assume a: "cx - 4 \<le> x \<and> x \<le> cx + 4 \<and> cy - 4 \<le> y \<and> y \<le> cy + 4
               \<and> 0 \<le> x \<and> x < sz \<and> 0 \<le> y \<and> y < sz"
    then have "y - cy \<in> {-4..4}" "x - cx \<in> {-4..4}" by auto
    moreover have "x = cx + (x - cx) \<and> y = cy + (y - cy)" by simp
    ultimately show "\<exists>dy\<in>{-4..4}. \<exists>dx\<in>{-4..4}. x = cx + dx \<and> y = cy + dy
               \<and> 0 \<le> x \<and> x < sz \<and> 0 \<le> y \<and> y < sz" using a by blast
  qed
  also have "\<dots> \<longleftrightarrow> p \<in> rectCells (rectInter (cx - 4, cx + 4, cy - 4, cy + 4) (0, sz - 1, 0, sz - 1))"
    by (auto simp: p rectCells_def rectInter_def)
  finally show "p \<in> (\<Union>dy\<in>{-4..4}. \<Union>dx\<in>{-4..4}. set (writePos (finderCell sz cx cy dy dx)))
        \<longleftrightarrow> p \<in> rectCells (rectInter (cx - 4, cx + 4, cy - 4, cy + 4) (0, sz - 1, 0, sz - 1))" .
qed

lemma finderCentre_list_pos:
  "set (writePos (concat (map (\<lambda>dy. concat (map (\<lambda>dx. finderCell sz cx cy dy dx) [-4..4])) [-4..4])))
     = rectCells (rectInter (cx - 4, cx + 4, cy - 4, cy + 4) (0, sz - 1, 0, sz - 1))"
  by (simp only: set_writePos_concat_map set_upto finderCentre_pos)

lemma finderWrites_pos: "set (writePos (finderWrites sz)) = rectsCells (finderRects sz)"
  unfolding finderWrites_def finderRects_def rectsCells_def set_writePos_concat_map
  by (simp only: finderCentre_list_pos list.set list.map split_conv UN_insert UN_empty
      image_insert image_empty)

lemma finderCell_filled: "list_all (\<lambda>w. isFilledModule (snd (snd w))) (finderCell sz cx cy dy dx)"
  by (simp add: finderCell_def Let_def newModule_def)

lemma finderWrites_filled: "list_all (\<lambda>w. isFilledModule (snd (snd w))) (finderWrites sz)"
  unfolding finderWrites_def
proof (rule list_all_concat_map)
  fix c :: "int \<times> int"
  obtain cx cy where c: "c = (cx, cy)" by (cases c)
  show "list_all (\<lambda>w. isFilledModule (snd (snd w)))
          (case c of (cx, cy) \<Rightarrow>
             concat (map (\<lambda>dy. concat (map (\<lambda>dx. finderCell sz cx cy dy dx) [-4..4])) [-4..4]))"
    unfolding c split_conv by (intro list_all_concat_map finderCell_filled)
qed

lemma writePos_Nil: "writePos [] = []"
  by (simp add: writePos_def)

lemma alignmentBox_pos:
  "set (writePos (alignmentBox cx cy)) = rectCells (cx - 2, cx + 2, cy - 2, cy + 2)"
proof (rule set_eqI)
  fix p :: "int \<times> int"
  obtain x y where p: "p = (x, y)" by (cases p)
  have "p \<in> set (writePos (alignmentBox cx cy))
          \<longleftrightarrow> (\<exists>dy\<in>{-2..2}. \<exists>dx\<in>{-2..2}. x = cx + dx \<and> y = cy + dy)"
    unfolding alignmentBox_def set_writePos_concat_map set_upto
    by (auto simp: p set_writePos image_iff simp del: upto.simps)
  also have "\<dots> \<longleftrightarrow> cx - 2 \<le> x \<and> x \<le> cx + 2 \<and> cy - 2 \<le> y \<and> y \<le> cy + 2"
  proof
    assume "\<exists>dy\<in>{-2..2}. \<exists>dx\<in>{-2..2}. x = cx + dx \<and> y = cy + dy"
    then show "cx - 2 \<le> x \<and> x \<le> cx + 2 \<and> cy - 2 \<le> y \<and> y \<le> cy + 2" by auto
  next
    assume a: "cx - 2 \<le> x \<and> x \<le> cx + 2 \<and> cy - 2 \<le> y \<and> y \<le> cy + 2"
    then have "y - cy \<in> {-2..2}" "x - cx \<in> {-2..2}" by auto
    moreover have "x = cx + (x - cx) \<and> y = cy + (y - cy)" by simp
    ultimately show "\<exists>dy\<in>{-2..2}. \<exists>dx\<in>{-2..2}. x = cx + dx \<and> y = cy + dy" by blast
  qed
  also have "\<dots> \<longleftrightarrow> p \<in> rectCells (cx - 2, cx + 2, cy - 2, cy + 2)"
    by (auto simp: p rectCells_def)
  finally show "p \<in> set (writePos (alignmentBox cx cy))
          \<longleftrightarrow> p \<in> rectCells (cx - 2, cx + 2, cy - 2, cy + 2)" .
qed

lemma alignmentBox_filled: "list_all (\<lambda>w. isFilledModule (snd (snd w))) (alignmentBox cx cy)"
  unfolding alignmentBox_def
  by (intro list_all_concat_map) (simp add: list_all_iff newModule_def)

lemma rectsCells_concat_map: "rectsCells (concat (map f xs)) = (\<Union>x\<in>set xs. rectsCells (f x))"
  by (auto simp: rectsCells_def)

lemma alignmentWrites_pos:
  "set (writePos (alignmentWrites ver sz)) = rectsCells (alignmentRects ver sz)"
proof (cases "ver = 1")
  case True
  then show ?thesis by (simp add: alignmentWrites_def alignmentRects_def writePos_def rectsCells_def)
next
  case False
  have c: "set (writePos (if b then [] else alignmentBox cx cy))
             = rectsCells (if b then [] else [(cx - 2, cx + 2, cy - 2, cy + 2)])" for b cx cy
    by (cases b) (simp_all add: alignmentBox_pos rectsCells_def writePos_Nil)
  show ?thesis
    using False
    unfolding alignmentWrites_def alignmentRects_def Let_def
    by (simp only: if_False set_writePos_concat_map rectsCells_concat_map c
        split_beta)
qed

lemma alignmentWrites_filled:
  "list_all (\<lambda>w. isFilledModule (snd (snd w))) (alignmentWrites ver sz)"
proof (cases "ver = 1")
  case True
  then show ?thesis by (simp add: alignmentWrites_def)
next
  case False
  have c: "list_all (\<lambda>w. isFilledModule (snd (snd w))) (if b then [] else alignmentBox cx cy)"
    for b cx cy
    by (simp add: alignmentBox_filled)
  show ?thesis
    using False
    unfolding alignmentWrites_def Let_def split_beta
    by (simp only: if_False) (intro list_all_concat_map c)
qed

lemma formatWrites_pos: "set (writePos (formatWrites sz bits)) = rectsCells (formatRects sz)"
proof -
  have r1: "rectCells (8, 8, 0, 5) = {(8, 0), (8, 1), (8, 2), (8, 3), (8, 4), (8, 5)}"
    by (auto simp: rectCells_def)
  have r2: "rectCells (8, 8, 7, 8) = {(8, 7), (8, 8)}"
    by (auto simp: rectCells_def)
  have r3: "rectCells (7, 7, 8, 8) = {(7, 8)}"
    by (auto simp: rectCells_def)
  have r4: "rectCells (0, 5, 8, 8) = {(5, 8), (4, 8), (3, 8), (2, 8), (1, 8), (0, 8)}"
    by (auto simp: rectCells_def)
  have r5: "rectCells (sz - 8, sz - 1, 8, 8) =
      {(sz - 1, 8), (sz - 2, 8), (sz - 3, 8), (sz - 4, 8), (sz - 5, 8), (sz - 6, 8),
       (sz - 7, 8), (sz - 8, 8)}"
    by (auto simp: rectCells_def)
  have r6: "rectCells (8, 8, sz - 7, sz - 1) =
      {(8, sz - 7), (8, sz - 6), (8, sz - 5), (8, sz - 4), (8, sz - 3), (8, sz - 2), (8, sz - 1)}"
    by (auto simp: rectCells_def)
  have r7: "rectCells (8, 8, sz - 8, sz - 8) = {(8, sz - 8)}"
    by (auto simp: rectCells_def)
  have l: "set (writePos (formatWrites sz bits)) =
      {(8, 0), (8, 1), (8, 2), (8, 3), (8, 4), (8, 5)} \<union> ({(8, 7), (8, 8)} \<union> ({(7, 8)}
      \<union> ({(5, 8), (4, 8), (3, 8), (2, 8), (1, 8), (0, 8)}
      \<union> ({(sz - 1, 8), (sz - 2, 8), (sz - 3, 8), (sz - 4, 8), (sz - 5, 8), (sz - 6, 8),
         (sz - 7, 8), (sz - 8, 8)}
      \<union> ({(8, sz - 7), (8, sz - 6), (8, sz - 5), (8, sz - 4), (8, sz - 3), (8, sz - 2), (8, sz - 1)}
      \<union> {(8, sz - 8)})))))"
    unfolding formatWrites_unfold writePos_def
    by (simp only: list.map list.set fst_conv snd_conv Un_insert_left Un_empty_left)
  have "rectsCells (formatRects sz) =
      rectCells (8, 8, 0, 5) \<union> (rectCells (8, 8, 7, 8) \<union> (rectCells (7, 7, 8, 8)
      \<union> (rectCells (0, 5, 8, 8) \<union> (rectCells (sz - 8, sz - 1, 8, 8)
      \<union> (rectCells (8, 8, sz - 7, sz - 1) \<union> rectCells (8, 8, sz - 8, sz - 8))))))"
    unfolding formatRects_def rectsCells_def
    by (simp only: list.set UN_insert UN_empty Un_empty_right)
  then show ?thesis
    by (simp only: l r1 r2 r3 r4 r5 r6 r7)
qed

lemma formatWrites_filled: "list_all (\<lambda>w. isFilledModule (snd (snd w))) (formatWrites sz bits)"
  by (simp add: formatWrites_unfold newModule_def)

lemma versionWrites_pos:
  "set (writePos (versionWrites sz bits))
     = rectsCells [(sz - 11, sz - 9, 0, 5), (0, 5, sz - 11, sz - 9)]"
proof (rule set_eqI)
  fix p :: "int \<times> int"
  obtain x y where p: "p = (x, y)" by (cases p)
  have "p \<in> set (writePos (versionWrites sz bits))
          \<longleftrightarrow> (\<exists>i<18. (x = sz - 11 + int (i mod 3) \<and> y = int (i div 3))
                    \<or> (x = int (i div 3) \<and> y = sz - 11 + int (i mod 3)))"
    unfolding versionWrites_def set_writePos_concat_map
    by (auto simp: p set_writePos Let_def)
  also have "\<dots> \<longleftrightarrow> (sz - 11 \<le> x \<and> x \<le> sz - 9 \<and> 0 \<le> y \<and> y \<le> 5)
                    \<or> (0 \<le> x \<and> x \<le> 5 \<and> sz - 11 \<le> y \<and> y \<le> sz - 9)"
  proof
    assume "\<exists>i<18. (x = sz - 11 + int (i mod 3) \<and> y = int (i div 3))
                    \<or> (x = int (i div 3) \<and> y = sz - 11 + int (i mod 3))"
    then obtain i :: nat where i: "i < 18"
      "(x = sz - 11 + int (i mod 3) \<and> y = int (i div 3))
         \<or> (x = int (i div 3) \<and> y = sz - 11 + int (i mod 3))" by blast
    have "i mod 3 < 3" by simp
    moreover have "i div 3 \<le> 5" using i(1) by simp
    ultimately show "(sz - 11 \<le> x \<and> x \<le> sz - 9 \<and> 0 \<le> y \<and> y \<le> 5)
                    \<or> (0 \<le> x \<and> x \<le> 5 \<and> sz - 11 \<le> y \<and> y \<le> sz - 9)"
      using i(2) by auto
  next
    assume a: "(sz - 11 \<le> x \<and> x \<le> sz - 9 \<and> 0 \<le> y \<and> y \<le> 5)
                    \<or> (0 \<le> x \<and> x \<le> 5 \<and> sz - 11 \<le> y \<and> y \<le> sz - 9)"
    have w: "\<exists>i<18. a = sz - 11 + int (i mod 3) \<and> b = int (i div 3)"
      if "sz - 11 \<le> a" "a \<le> sz - 9" "0 \<le> b" "b \<le> 5" for a b
    proof -
      define r where "r = nat (a - (sz - 11))"
      define q where "q = nat b"
      have r: "r < 3" "int r = a - (sz - 11)" using that by (auto simp: r_def)
      have q: "q < 6" "int q = b" using that by (auto simp: q_def)
      have "3 * q + r < 18" using r q by simp
      moreover have "(3 * q + r) mod 3 = r" using r by simp
      moreover have "(3 * q + r) div 3 = q" using r by simp
      ultimately show ?thesis using r q by (intro exI[of _ "3 * q + r"]) simp
    qed
    from a show "\<exists>i<18. (x = sz - 11 + int (i mod 3) \<and> y = int (i div 3))
                    \<or> (x = int (i div 3) \<and> y = sz - 11 + int (i mod 3))"
    proof
      assume "sz - 11 \<le> x \<and> x \<le> sz - 9 \<and> 0 \<le> y \<and> y \<le> 5"
      then show ?thesis using w[of x y] by blast
    next
      assume "0 \<le> x \<and> x \<le> 5 \<and> sz - 11 \<le> y \<and> y \<le> sz - 9"
      then show ?thesis using w[of y x] by blast
    qed
  qed
  also have "\<dots> \<longleftrightarrow> p \<in> rectsCells [(sz - 11, sz - 9, 0, 5), (0, 5, sz - 11, sz - 9)]"
    by (auto simp: p rectsCells_def rectCells_def)
  finally show "p \<in> set (writePos (versionWrites sz bits))
          \<longleftrightarrow> p \<in> rectsCells [(sz - 11, sz - 9, 0, 5), (0, 5, sz - 11, sz - 9)]" .
qed

lemma versionWrites_filled: "list_all (\<lambda>w. isFilledModule (snd (snd w))) (versionWrites sz bits)"
  unfolding versionWrites_def
  by (rule list_all_concat_map) (simp add: Let_def newModule_def)

lemma inside_gridCells: "0 \<le> sz \<Longrightarrow> inside (nat sz) x y \<longleftrightarrow> (x, y) \<in> gridCells sz"
  by (auto simp: inside_def gridCells_def)

lemma unfilledCells_square:
  "square (nat sz) (modules g) \<Longrightarrow> 0 \<le> sz \<Longrightarrow>
   unfilledCells g = {(x, y). (x, y) \<in> gridCells sz \<and> modules g ! nat x ! nat y = UnfilledModule}"
  by (auto simp: unfilledCells_def getModule_square inside_gridCells)

lemma draw_wellFormed:
  assumes wf: "wellFormed g"
    and inr: "set (writePos ws) \<subseteq> gridCells (sizeQ g)"
    and fill: "list_all (\<lambda>w. isFilledModule (snd (snd w))) ws"
  shows "\<exists>r. withModules g (drawModules ws (modules g)) = Inr r \<and> wellFormed r
           \<and> version r = version g \<and> errorCorrectionLevel r = errorCorrectionLevel g
           \<and> sizeQ r = sizeQ g
           \<and> unfilledCells r = unfilledCells g - set (writePos ws)"
proof -
  let ?n = "nat (sizeQ g)"
  have s0: "0 \<le> sizeQ g" using wf by (simp add: wellFormed_def)
  have sq: "square ?n (modules g)" by (rule wellFormed_square[OF wf])
  have ins: "list_all (\<lambda>p. inside ?n (fst p) (snd p)) (writePos ws)"
    using inr by (auto simp: list_all_iff inside_gridCells[OF s0])
  from drawModules_square[OF sq ins] obtain ms where
    ms: "drawModules ws (modules g) = Inr ms" "square ?n ms"
      "\<And>x y. inside ?n x y \<Longrightarrow> ms ! nat x ! nat y = cellAfter ws (modules g ! nat x ! nat y) x y"
    by blast
  let ?r = "g\<lparr>modules := ms\<rparr>"
  have sqr: "square (nat (sizeQ g)) (modules ?r)" using ms(2) by simp
  have u: "unfilledCells ?r = unfilledCells g - set (writePos ws)"
    unfolding unfilledCells_square[OF sqr s0] unfilledCells_square[OF sq s0]
    by (auto simp: ms(3) inside_gridCells[OF s0, symmetric] cellAfter_unfilled[OF fill])
  show ?thesis
    using ms(1) withModules_wellFormed[OF wf ms(2)] u by (auto simp: withModules_def)
qed

lemma versionField_table: "list_all versionFieldFits [7..40]"
  by code_simp

lemma versionField_ok:
  fixes v :: int
  assumes "7 \<le> v" "v \<le> 40"
  shows "drop_bit 18 (versionField v) = 0"
proof -
  from assms have "v \<in> {7..40}" by simp
  then have "v \<in> set [7..40]" by (simp only: set_upto)
  with versionField_table have "versionFieldFits v"
    unfolding list_all_iff by blast
  then show ?thesis unfolding versionFieldFits_def by blast
qed

lemma QrCode_new_wellFormed:
  assumes "1 \<le> ver"
  shows "\<exists>g. QrCode_new ver ecl = Inr g \<and> wellFormed g \<and> version g = ver
           \<and> errorCorrectionLevel g = ecl \<and> sizeQ g = ver * 4 + 17
           \<and> unfilledCells g = gridCells (ver * 4 + 17)"
proof -
  let ?sz = "ver * 4 + 17"
  let ?g = "\<lparr> version = ver, errorCorrectionLevel = ecl, sizeQ = ?sz,
              modules = replicate (nat ?sz) (replicate (nat ?sz) UnfilledModule) \<rparr>"
  have n: "QrCode_new ver ecl = Inr ?g" by (simp add: QrCode_new_def Let_def)
  have wf: "wellFormed ?g" using assms by (simp add: wellFormed_def list_all_iff)
  have s0: "0 \<le> ?sz" using assms by simp
  have sq: "square (nat ?sz) (modules ?g)" using wellFormed_square[OF wf] by simp
  have "unfilledCells ?g = gridCells ?sz"
    unfolding unfilledCells_square[OF sq s0]
    by (auto simp: gridCells_def)
  with n wf show ?thesis by simp
qed

lemma rectsWithin_append:
  "list_all (rectWithin sz) (a @ b) \<longleftrightarrow> list_all (rectWithin sz) a \<and> list_all (rectWithin sz) b"
  by simp

lemma rects_in_grid:
  "list_all (rectWithin sz) rs \<Longrightarrow> rectsCells rs \<subseteq> gridCells sz"
  using rectsWithin_cells[of sz rs] by (simp add: gridCells_def)

lemma drawFunctionPatterns_unfilled:
  assumes v: "1 \<le> ver" "ver \<le> 40" and m: "-1 \<le> msk" "msk \<le> 7"
    and within: "list_all (rectWithin (ver * 4 + 17)) (functionRects ver (ver * 4 + 17))"
  shows "\<exists>g. drawFunctionPatterns ver ecl msk = Inr g \<and> wellFormed g \<and> version g = ver
           \<and> errorCorrectionLevel g = ecl \<and> sizeQ g = ver * 4 + 17
           \<and> unfilledCells g
                = gridCells (ver * 4 + 17) - rectsCells (functionRects ver (ver * 4 + 17))"
proof -
  let ?sz = "ver * 4 + 17"
  from within have w:
    "list_all (rectWithin ?sz) (alignmentRects ver ?sz)"
    "list_all (rectWithin ?sz) (versionRects ver ?sz)"
    "list_all (rectWithin ?sz) (formatRects ?sz)"
    "list_all (rectWithin ?sz) (finderRects ?sz)"
    "list_all (rectWithin ?sz) (timingRects ?sz)"
    by (simp_all add: functionRects_def)
  from QrCode_new_wellFormed[OF v(1), of ecl] obtain g0 where
    g0: "QrCode_new ver ecl = Inr g0" "wellFormed g0" "version g0 = ver"
      "errorCorrectionLevel g0 = ecl" "sizeQ g0 = ?sz" "unfilledCells g0 = gridCells ?sz"
    by blast
  have t: "set (writePos (timingWrites (sizeQ g0))) \<subseteq> gridCells (sizeQ g0)"
    using rects_in_grid[OF w(5)] by (simp add: timingWrites_pos g0(5))
  from draw_wellFormed[OF g0(2) t timingWrites_filled] obtain g1 where
    g1: "drawTimingPatterns g0 = Inr g1" "wellFormed g1" "version g1 = ver"
      "errorCorrectionLevel g1 = ecl" "sizeQ g1 = ?sz"
      "unfilledCells g1 = gridCells ?sz - rectsCells (timingRects ?sz)"
    by (auto simp: drawTimingPatterns_def g0 timingWrites_pos)
  have f: "set (writePos (finderWrites (sizeQ g1))) \<subseteq> gridCells (sizeQ g1)"
    using rects_in_grid[OF w(4)] by (simp add: finderWrites_pos g1(5))
  from draw_wellFormed[OF g1(2) f finderWrites_filled] obtain g2 where
    g2: "drawFinderPatterns g1 = Inr g2" "wellFormed g2" "version g2 = ver"
      "errorCorrectionLevel g2 = ecl" "sizeQ g2 = ?sz"
      "unfilledCells g2 = gridCells ?sz - rectsCells (timingRects ?sz) - rectsCells (finderRects ?sz)"
    by (auto simp: drawFinderPatterns_def g1 finderWrites_pos)
  have a: "set (writePos (alignmentWrites (version g2) (sizeQ g2))) \<subseteq> gridCells (sizeQ g2)"
    using rects_in_grid[OF w(1)] by (simp add: alignmentWrites_pos g2(3,5))
  from draw_wellFormed[OF g2(2) a alignmentWrites_filled] obtain g3 where
    g3: "drawAlignmentPatterns g2 = Inr g3" "wellFormed g3" "version g3 = ver"
      "errorCorrectionLevel g3 = ecl" "sizeQ g3 = ?sz"
      "unfilledCells g3 = gridCells ?sz - rectsCells (timingRects ?sz) - rectsCells (finderRects ?sz)
         - rectsCells (alignmentRects ver ?sz)"
    by (auto simp: drawAlignmentPatterns_def g2 alignmentWrites_pos)
  let ?bits = "formatField (errorCorrectionLevel g3) msk"
  have fo: "set (writePos (formatWrites (sizeQ g3) ?bits)) \<subseteq> gridCells (sizeQ g3)"
    using rects_in_grid[OF w(3)] by (simp add: formatWrites_pos g3(5))
  from draw_wellFormed[OF g3(2) fo formatWrites_filled] obtain g4 where
    g4: "drawFormatBits g3 msk = Inr g4" "wellFormed g4" "version g4 = ver"
      "errorCorrectionLevel g4 = ecl" "sizeQ g4 = ?sz"
      "unfilledCells g4 = gridCells ?sz - rectsCells (timingRects ?sz) - rectsCells (finderRects ?sz)
         - rectsCells (alignmentRects ver ?sz) - rectsCells (formatRects ?sz)"
    by (auto simp: drawFormatBits_def Let_def formatField_fits[OF m] g3 formatWrites_pos)
  have "\<exists>g5. drawVersionInformation g4 = Inr g5 \<and> wellFormed g5 \<and> version g5 = ver
      \<and> errorCorrectionLevel g5 = ecl \<and> sizeQ g5 = ?sz
      \<and> unfilledCells g5 = gridCells ?sz - rectsCells (timingRects ?sz) - rectsCells (finderRects ?sz)
         - rectsCells (alignmentRects ver ?sz) - rectsCells (formatRects ?sz)
         - rectsCells (versionRects ver ?sz)"
  proof (cases "ver < 7")
    case True
    then show ?thesis
      using g4 by (simp add: drawVersionInformation_def versionRects_def rectsCells_simps)
  next
    case False
    then have v7: "7 \<le> ver" by simp
    let ?vb = "versionField (version g4)"
    have vr: "versionRects ver ?sz = [(?sz - 11, ?sz - 9, 0, 5), (0, 5, ?sz - 11, ?sz - 9)]"
      using False by (simp add: versionRects_def)
    have ve: "set (writePos (versionWrites (sizeQ g4) ?vb)) \<subseteq> gridCells (sizeQ g4)"
      using rects_in_grid[OF w(2)] unfolding vr versionWrites_pos g4(5) .
    from draw_wellFormed[OF g4(2) ve versionWrites_filled] show ?thesis
      using False versionField_ok[OF v7 v(2)]
      by (auto simp: drawVersionInformation_def Let_def g4 versionWrites_pos vr)
  qed
  then obtain g5 where
    g5: "drawVersionInformation g4 = Inr g5" "wellFormed g5" "version g5 = ver"
      "errorCorrectionLevel g5 = ecl" "sizeQ g5 = ?sz"
      "unfilledCells g5 = gridCells ?sz - rectsCells (timingRects ?sz) - rectsCells (finderRects ?sz)
         - rectsCells (alignmentRects ver ?sz) - rectsCells (formatRects ?sz)
         - rectsCells (versionRects ver ?sz)"
    by blast
  have d: "drawFunctionPatterns ver ecl msk = Inr g5"
    by (simp add: drawFunctionPatterns_def thenE_def g0(1) g1(1) g2(1) g3(1) g4(1) g5(1))
  have "unfilledCells g5 = gridCells ?sz - rectsCells (functionRects ver ?sz)"
    unfolding g5(6) functionRects_def rectsCells_simps by blast
  with d g5 show ?thesis by blast
qed

section \<open>The zig-zag scan\<close>

lemma distinct_concat_map:
  "distinct xs \<Longrightarrow> (\<And>x. x \<in> set xs \<Longrightarrow> distinct (f x))
   \<Longrightarrow> (\<And>x y. x \<in> set xs \<Longrightarrow> y \<in> set xs \<Longrightarrow> x \<noteq> y \<Longrightarrow> set (f x) \<inter> set (f y) = {})
   \<Longrightarrow> distinct (concat (map f xs))"
proof (induction xs)
  case Nil
  then show ?case by simp
next
  case (Cons a xs)
  have "distinct (concat (map f xs))"
    by (rule Cons.IH) (use Cons.prems in auto)
  moreover have "distinct (f a)" using Cons.prems(2) by simp
  moreover have "set (f a) \<inter> set (f b) = {}" if "b \<in> set xs" for b
  proof -
    have "a \<noteq> b" using Cons.prems(1) that by auto
    then show ?thesis using Cons.prems(3)[of a b] that by simp
  qed
  ultimately show ?case by auto
qed

lemma stripCells_alt:
  "stripCells g right =
     concat (map (\<lambda>vert. scanCell g right (scanRow g right vert)
                          @ scanCell g (right - 1) (scanRow g right vert)) [0..sizeQ g - 1])"
proof -
  have u: "[0..1] = [0, 1 :: int]" by code_simp
  show ?thesis
    unfolding stripCells_def u by (simp add: Let_def scanCell_def scanRow_def cong: if_cong)
qed

lemma scanRow_range:
  "vert \<in> {0..sizeQ g - 1} \<Longrightarrow> scanRow g right vert \<in> {0..sizeQ g - 1}"
  by (auto simp: scanRow_def)

lemma scanRow_inj:
  "scanRow g right v = scanRow g right w \<Longrightarrow> v = w"
  by (auto simp: scanRow_def split: if_splits)

lemma scanRow_surj:
  "y \<in> {0..sizeQ g - 1} \<Longrightarrow> \<exists>vert\<in>{0..sizeQ g - 1}. scanRow g right vert = y"
proof (cases "(word_of_int (right + 1) :: 32 word) AND 2 = 0")
  case True
  assume "y \<in> {0..sizeQ g - 1}"
  then have "sizeQ g - 1 - y \<in> {0..sizeQ g - 1}" by auto
  moreover have "scanRow g right (sizeQ g - 1 - y) = y" using True by (simp add: scanRow_def)
  ultimately show ?thesis by blast
next
  case False
  assume "y \<in> {0..sizeQ g - 1}"
  moreover have "scanRow g right y = y" using False by (simp add: scanRow_def)
  ultimately show ?thesis by blast
qed

lemma stripCells_set:
  "set (stripCells g right) =
     {(x, y). (x = right \<or> x = right - 1) \<and> y \<in> {0..sizeQ g - 1}
              \<and> getModule (modules g) x y = Some UnfilledModule}"
proof (rule set_eqI)
  fix p :: "int \<times> int"
  obtain x y where p: "p = (x, y)" by (cases p)
  have "p \<in> set (stripCells g right) \<longleftrightarrow>
          (\<exists>vert\<in>{0..sizeQ g - 1}. y = scanRow g right vert \<and> (x = right \<or> x = right - 1)
             \<and> getModule (modules g) x y = Some UnfilledModule)"
    unfolding stripCells_alt by (auto simp: p scanCell_def simp del: upto.simps split: if_splits)
  also have "\<dots> \<longleftrightarrow> (x = right \<or> x = right - 1) \<and> y \<in> {0..sizeQ g - 1}
              \<and> getModule (modules g) x y = Some UnfilledModule"
    using scanRow_range[of _ g right] scanRow_surj[of y g right] by blast
  finally show "p \<in> set (stripCells g right) \<longleftrightarrow>
      p \<in> {(x, y). (x = right \<or> x = right - 1) \<and> y \<in> {0..sizeQ g - 1}
              \<and> getModule (modules g) x y = Some UnfilledModule}"
    by (simp add: p)
qed

lemma stripCells_distinct: "distinct (stripCells g right)"
  unfolding stripCells_alt
proof (rule distinct_concat_map)
  show "distinct [0..sizeQ g - 1]" by simp
next
  fix vert
  show "distinct (scanCell g right (scanRow g right vert)
          @ scanCell g (right - 1) (scanRow g right vert))"
    by (simp add: scanCell_def)
next
  fix v w :: int
  assume "v \<noteq> w"
  then have "scanRow g right v \<noteq> scanRow g right w" using scanRow_inj by blast
  then show "set (scanCell g right (scanRow g right v) @ scanCell g (right - 1) (scanRow g right v))
      \<inter> set (scanCell g right (scanRow g right w) @ scanCell g (right - 1) (scanRow g right w)) = {}"
    by (auto simp: scanCell_def split: if_splits)
qed

lemma zigZagFrom_props:
  "(even right \<and> 6 \<le> right) \<or> (odd right \<and> -1 \<le> right \<and> right \<le> 5) \<Longrightarrow>
   set (zigZagFrom g right) =
     {(x, y). x \<le> right \<and> x \<noteq> 6 \<and> y \<in> {0..sizeQ g - 1}
              \<and> getModule (modules g) x y = Some UnfilledModule}
   \<and> distinct (zigZagFrom g right)"
proof (induction g right rule: zigZagFrom.induct)
  case (1 g right)
  show ?case
  proof (cases "right \<ge> 1")
    case False
    with "1.prems" have r: "right = -1" by presburger
    have "getModule (modules g) x y \<noteq> Some UnfilledModule" if "x \<le> -1" for x y
      using that by (simp add: getModule_def inGrid_def)
    then show ?thesis
      by (subst (1 2) zigZagFrom.simps) (auto simp: r)
  next
    case True
    let ?r = "if right = 6 then 5 else right"
    have next_ok: "(even (?r - 2) \<and> 6 \<le> ?r - 2) \<or> (odd (?r - 2) \<and> -1 \<le> ?r - 2 \<and> ?r - 2 \<le> 5)"
    proof (cases "right = 6")
      case True
      then show ?thesis by simp
    next
      case False
      then have "?r = right" by simp
      moreover have "(even (right - 2) \<and> 6 \<le> right - 2)
          \<or> (odd (right - 2) \<and> -1 \<le> right - 2 \<and> right - 2 \<le> 5)"
        using "1.prems" True False by presburger
      ultimately show ?thesis by simp
    qed
    from "1.IH"[OF True next_ok] have
      ih: "set (zigZagFrom g (?r - 2)) =
             {(x, y). x \<le> ?r - 2 \<and> x \<noteq> 6 \<and> y \<in> {0..sizeQ g - 1}
                \<and> getModule (modules g) x y = Some UnfilledModule}"
          "distinct (zigZagFrom g (?r - 2))"
      by blast+
    have unfold: "zigZagFrom g right = stripCells g ?r @ zigZagFrom g (?r - 2)"
      using True by (subst zigZagFrom.simps) simp
    have cols: "x \<le> right \<and> x \<noteq> 6 \<longleftrightarrow> (x = ?r \<or> x = ?r - 1) \<or> (x \<le> ?r - 2 \<and> x \<noteq> 6)" for x
    proof (cases "right = 6")
      case True
      then show ?thesis by auto
    next
      case False
      then have "?r = right" by simp
      moreover have "x \<le> right \<and> x \<noteq> 6 \<longleftrightarrow>
          (x = right \<or> x = right - 1) \<or> (x \<le> right - 2 \<and> x \<noteq> 6)"
        using "1.prems" \<open>right \<ge> 1\<close> False by presburger
      ultimately show ?thesis by simp
    qed
    have s: "set (zigZagFrom g right) =
        {(x, y). x \<le> right \<and> x \<noteq> 6 \<and> y \<in> {0..sizeQ g - 1}
              \<and> getModule (modules g) x y = Some UnfilledModule}"
      unfolding unfold set_append stripCells_set ih(1) using cols by blast
    define r' where "r' = ?r"
    have "set (stripCells g r') \<inter>
        {(x, y). x \<le> r' - 2 \<and> x \<noteq> 6 \<and> y \<in> {0..sizeQ g - 1}
                \<and> getModule (modules g) x y = Some UnfilledModule} = {}"
      unfolding stripCells_set by auto
    then have disj: "set (stripCells g ?r) \<inter> set (zigZagFrom g (?r - 2)) = {}"
      unfolding ih(1) r'_def .
    have d: "distinct (zigZagFrom g right)"
      unfolding unfold distinct_append using stripCells_distinct[of g ?r] ih(2) disj by blast
    from s d show ?thesis by blast
  qed
qed

lemma scanCells_props:
  assumes wf: "wellFormed g" and v: "1 \<le> version g"
  shows "set (scanCells g) = {p \<in> unfilledCells g. fst p \<noteq> 6}"
    and "distinct (scanCells g)"
proof -
  have sz: "sizeQ g = version g * 4 + 17" using wf by (simp add: wellFormed_def)
  have r: "even (sizeQ g - 1) \<and> 6 \<le> sizeQ g - 1" using v by (simp add: sz)
  from zigZagFrom_props[of "sizeQ g - 1" g] r have
    p: "set (scanCells g) =
         {(x, y). x \<le> sizeQ g - 1 \<and> x \<noteq> 6 \<and> y \<in> {0..sizeQ g - 1}
              \<and> getModule (modules g) x y = Some UnfilledModule}"
       "distinct (scanCells g)"
    by (simp_all add: scanCells_def)
  show "distinct (scanCells g)" by (rule p(2))
  have s0: "0 \<le> sizeQ g" using v by (simp add: sz)
  have sq: "square (nat (sizeQ g)) (modules g)" by (rule wellFormed_square[OF wf])
  show "set (scanCells g) = {p \<in> unfilledCells g. fst p \<noteq> 6}"
    unfolding p(1) unfilledCells_def
    by (auto simp: getModule_square[OF sq] inside_def split: if_splits)
qed

lemma forLoop_append:
  assumes "\<And>a r. a \<in> set xs \<Longrightarrow> body a r = Inr (r @ h a)"
  shows "forLoop xs body r = Inr (r @ concat (map h xs))"
  using assms by (induction xs arbitrary: r) simp_all

lemma scanStep_ok:
  assumes "0 \<le> right - j" "nat (right - j) < length (modules g)"
  shows "scanStep g right vert j r =
     Inr (r @ (let x = right - j;
                   upward = ((word_of_int (right + 1) :: 32 word) AND 2 = 0);
                   y = (if upward then sizeQ g - 1 - vert else vert)
               in if getModule (modules g) x y = Some UnfilledModule then [(x, y)] else []))"
  using assms by (auto simp: scanStep_def readCell_def getModule_def inGrid_def Let_def)

lemma stripScan_ok:
  assumes "1 \<le> right" "nat right < length (modules g)"
  shows "stripScan g right r = Inr (r @ stripCells g right)"
  unfolding stripScan_def stripCells_def
proof (rule forLoop_append)
  fix vert :: int and r :: "(int \<times> int) list"
  show "forLoop [0..1] (\<lambda>j. scanStep g right vert j) r =
     Inr (r @ concat (map (\<lambda>j. let x = right - j;
                   upward = ((word_of_int (right + 1) :: 32 word) AND 2 = 0);
                   y = (if upward then sizeQ g - 1 - vert else vert)
               in if getModule (modules g) x y = Some UnfilledModule then [(x, y)] else [])
              [0..1]))"
  proof (rule forLoop_append)
    fix j :: int and r :: "(int \<times> int) list"
    assume "j \<in> set [0..1]"
    then have j: "0 \<le> j" "j \<le> 1" by simp_all
    have a: "0 \<le> right - j" using j assms(1) by simp
    have b: "nat (right - j) < length (modules g)" using j assms by linarith
    show "scanStep g right vert j r =
       Inr (r @ (let x = right - j;
                   upward = ((word_of_int (right + 1) :: 32 word) AND 2 = 0);
                   y = (if upward then sizeQ g - 1 - vert else vert)
               in if getModule (modules g) x y = Some UnfilledModule then [(x, y)] else []))"
      by (rule scanStep_ok[OF a b])
  qed
qed

lemma zigZagLoop_ok:
  "right < int (length (modules g)) \<Longrightarrow> zigZagLoop g right r = Inr (r @ zigZagFrom g right)"
proof (induction g right arbitrary: r rule: zigZagFrom.induct)
  case (1 g right)
  show ?case
  proof (cases "1 \<le> right")
    case True
    let ?r = "if right = 6 then 5 else right"
    have a: "1 \<le> ?r" using True by simp
    have b: "nat ?r < length (modules g)" using 1(2) True by (cases "right = 6") auto
    have c: "?r - 2 < int (length (modules g))" using 1(2) by (cases "right = 6") auto
    have s: "stripScan g ?r r = Inr (r @ stripCells g ?r)" by (rule stripScan_ok[OF a b])
    have "zigZagLoop g right r = zigZagLoop g (?r - 2) (r @ stripCells g ?r)"
      using True by (subst zigZagLoop.simps) (simp add: s)
    also have "\<dots> = Inr ((r @ stripCells g ?r) @ zigZagFrom g (?r - 2))"
      by (rule 1(1)[OF True c])
    also have "(r @ stripCells g ?r) @ zigZagFrom g (?r - 2) = r @ zigZagFrom g right"
      using True by (subst (2) zigZagFrom.simps) simp
    finally show ?thesis .
  next
    case False
    then show ?thesis
      by (subst zigZagLoop.simps, subst zigZagFrom.simps) simp
  qed
qed

lemma makeZigZagScan_ok:
  assumes "wellFormed g"
  shows "makeZigZagScan g = Inr (scanCells g)"
proof -
  have "sizeQ g - 1 < int (length (modules g))"
    using assms by (simp add: wellFormed_def)
  from zigZagLoop_ok[OF this, of "[]"] show ?thesis
    by (simp add: makeZigZagScan_def scanCells_def)
qed

lemma capacity_table_1: "list_all capacityCheck [1..13]"
  by code_simp

lemma capacity_table_2: "list_all capacityCheck [14..24]"
  by code_simp

lemma capacity_table_3: "list_all capacityCheck [25..31]"
  by code_simp

lemma capacity_table_4: "list_all capacityCheck [32..36]"
  by code_simp

lemma capacity_table_5: "list_all capacityCheck [37..40]"
  by code_simp

lemma capacityCheck_all:
  fixes ver :: int
  assumes "1 \<le> ver" "ver \<le> 40"
  shows "capacityCheck ver"
proof -
  from assms have "ver \<in> {1..13} \<or> ver \<in> {14..24} \<or> ver \<in> {25..31} \<or> ver \<in> {32..36}
      \<or> ver \<in> {37..40}" by auto
  then have "ver \<in> set [1..13] \<or> ver \<in> set [14..24] \<or> ver \<in> set [25..31]
      \<or> ver \<in> set [32..36] \<or> ver \<in> set [37..40]" by (simp only: set_upto)
  with capacity_table_1 capacity_table_2 capacity_table_3 capacity_table_4 capacity_table_5
  show ?thesis unfolding list_all_iff by blast
qed

lemma card_gridCells: "0 \<le> sz \<Longrightarrow> int (card (gridCells sz)) = sz * sz"
  by (simp add: gridCells_def card_cartesian_product nat_mult_distrib)

lemma finite_gridCells: "finite (gridCells sz)"
  by (simp add: gridCells_def)

lemma column6_timing: "(6, y) \<in> gridCells sz \<Longrightarrow> (6, y) \<in> rectsCells (functionRects ver sz)"
  by (auto simp: functionRects_def timingRects_def rectsCells_def rectCells_def gridCells_def)

lemma scan_length:
  assumes v: "1 \<le> ver" "ver \<le> 40" and m: "-1 \<le> msk" "msk \<le> 7"
  shows "\<exists>g. drawFunctionPatterns ver ecl msk = Inr g \<and> wellFormed g \<and> version g = ver
           \<and> errorCorrectionLevel g = ecl \<and> sizeQ g = ver * 4 + 17
           \<and> distinct (scanCells g)
           \<and> set (scanCells g) = unfilledCells g
           \<and> unfilledCells g \<subseteq> gridCells (ver * 4 + 17)
           \<and> getNumRawDataModules ver = Inr (int (length (scanCells g)))"
proof -
  let ?sz = "ver * 4 + 17"
  let ?F = "rectsCells (functionRects ver ?sz)"
  have cc: "capacityCheck ver" by (rule capacityCheck_all[OF v])
  then have within: "list_all (rectWithin ?sz) (functionRects ver ?sz)"
    and raw: "getNumRawDataModules ver = Inr (?sz * ?sz - unionArea (functionRects ver ?sz))"
    by (simp_all add: capacityCheck_def)
  from drawFunctionPatterns_unfilled[OF v m within, of ecl] obtain g where
    g: "drawFunctionPatterns ver ecl msk = Inr g" "wellFormed g" "version g = ver"
      "errorCorrectionLevel g = ecl" "sizeQ g = ?sz"
      "unfilledCells g = gridCells ?sz - ?F"
    by blast
  have v1: "1 \<le> version g" using g(3) v(1) by simp
  have d: "distinct (scanCells g)" by (rule scanCells_props(2)[OF g(2) v1])
  have "{p \<in> unfilledCells g. fst p \<noteq> 6} = unfilledCells g"
    unfolding g(6) using column6_timing[of _ ?sz ver] by force
  then have s: "set (scanCells g) = unfilledCells g"
    using scanCells_props(1)[OF g(2) v1] by simp
  have sub: "?F \<subseteq> gridCells ?sz" by (rule rects_in_grid[OF within])
  have s0: "0 \<le> ?sz" using v(1) by simp
  have "length (scanCells g) = card (gridCells ?sz - ?F)"
    using distinct_card[OF d] s g(6) by simp
  also have "\<dots> = card (gridCells ?sz) - card ?F"
    by (rule card_Diff_subset[OF finite_rectsCells sub])
  finally have "int (length (scanCells g)) = int (card (gridCells ?sz)) - int (card ?F)"
    using card_mono[OF finite_gridCells sub] by simp
  then have len: "int (length (scanCells g)) = ?sz * ?sz - unionArea (functionRects ver ?sz)"
    by (simp add: card_gridCells[OF s0] unionArea_card)
  show ?thesis
    using g d s raw len by (intro exI[of _ g]) auto
qed

text \<open>
  C7. For every version in [1,40], every level and every mask index from -1 to 7, drawing
  the timing, finder and alignment patterns, the format bits and the version information
  on a fresh grid succeeds, and \<^verbatim>\<open>makeZigZagScan\<close> on the result returns as many pairs as
  \<^verbatim>\<open>getNumRawDataModules\<close> gives for the version, which is also the number of cells
  that are still unfilled.
\<close>

theorem makeZigZagScan_length:
  "1 \<le> ver \<and> ver \<le> 40 \<and> -1 \<le> msk \<and> msk \<le> 7 \<longrightarrow>
     (\<exists>g scan. drawFunctionPatterns ver ecl msk = Inr g
        \<and> makeZigZagScan g = Inr scan
        \<and> getNumRawDataModules ver = Inr (int (length scan))
        \<and> card (unfilledCells g) = length scan)"
proof
  assume "1 \<le> ver \<and> ver \<le> 40 \<and> -1 \<le> msk \<and> msk \<le> 7"
  then have v: "1 \<le> ver" "ver \<le> 40" and m: "-1 \<le> msk" "msk \<le> 7" by blast+
  from scan_length[OF v m, of ecl] obtain g where
    g: "drawFunctionPatterns ver ecl msk = Inr g" "wellFormed g"
       "distinct (scanCells g)" "set (scanCells g) = unfilledCells g"
       "getNumRawDataModules ver = Inr (int (length (scanCells g)))"
    by blast
  have c: "card (unfilledCells g) = length (scanCells g)"
    using distinct_card[OF g(3)] g(4) by simp
  show "\<exists>g scan. drawFunctionPatterns ver ecl msk = Inr g
        \<and> makeZigZagScan g = Inr scan
        \<and> getNumRawDataModules ver = Inr (int (length scan))
        \<and> card (unfilledCells g) = length scan"
    using g(1) makeZigZagScan_ok[OF g(2)] g(5) c by blast
qed

theorem makeZigZagScan_length_witness:
  "\<exists>g scan. drawFunctionPatterns 7 QUARTILE (-1) = Inr g \<and> makeZigZagScan g = Inr scan
     \<and> length scan = 1568 \<and> card (unfilledCells g) = 1568"
  using makeZigZagScan_length[of 7 "-1" QUARTILE]
  by (auto simp add: getNumRawDataModules_def MIN_VERSION_def MAX_VERSION_def)

section \<open>Placing and reading back the codewords\<close>

lemma getBit_bit: "i < 32 \<Longrightarrow> getBit w i = bit w i"
  by (simp add: getBit_def and_one_eq bit_iff_odd_drop_bit mod_2_eq_odd)

lemma byteOfBits_horner: "byteOfBits bs = horner_sum of_bool 2 (rev bs)"
proof -
  have "(\<lambda>x y. 2 * y + (if x then 1 else 0)) = (\<lambda>x b. of_bool x + 2 * (b :: int))"
    by (auto simp: fun_eq_iff)
  then show ?thesis
    by (simp add: byteOfBits_def foldl_conv_foldr horner_sum_foldr)
qed

lemma upt8: "[0..<8] = [0, 1, 2, 3, 4, 5, 6, 7 :: nat]"
  by code_simp

lemma byteOfBits_byte:
  assumes "0 \<le> b" "b \<le> 255"
  shows "byteOfBits (map (\<lambda>k. getBit (word_of_int b) (7 - k)) [0..<8]) = b"
proof -
  have "rev (map (\<lambda>k. getBit (word_of_int b) (7 - k)) [0..<8]) = map (bit b) [0..<8]"
    by (simp add: upt8 getBit_bit bit_word_of_int_iff)
  then have "byteOfBits (map (\<lambda>k. getBit (word_of_int b) (7 - k)) [0..<8]) = take_bit 8 b"
    by (simp only: byteOfBits_horner horner_sum_bit_eq_take_bit)
  also have "\<dots> = b" using assms by (intro take_bit_int_eq_self) simp_all
  finally show ?thesis .
qed

lemma length_bytesOfBits: "length (bytesOfBits n bs) = n"
  by (induction n arbitrary: bs) simp_all

lemma nth_bytesOfBits:
  "j < n \<Longrightarrow> bytesOfBits n bs ! j = byteOfBits (take 8 (drop (8 * j) bs))"
proof (induction n arbitrary: bs j)
  case 0
  then show ?case by simp
next
  case (Suc n)
  show ?case
  proof (cases j)
    case 0
    then show ?thesis by simp
  next
    case (Suc k)
    with Suc.prems have "k < n" by simp
    from Suc.IH[OF this, of "drop 8 bs"] show ?thesis
      by (simp add: Suc add.commute)
  qed
qed

lemma concat_map_single: "concat (map (\<lambda>i. [B i]) xs) = map B xs"
  by (induction xs) simp_all

lemma concat_map_if_upt:
  "m \<le> N \<Longrightarrow> concat (map (\<lambda>i. if i < m then [B i] else []) [0..<N]) = map B [0..<m]"
proof (induction N)
  case 0
  then show ?case by simp
next
  case (Suc N)
  show ?case
  proof (cases "m = Suc N")
    case True
    have e: "map (\<lambda>i. if i < Suc N then [B i] else []) [0..<N] = map (\<lambda>i. [B i]) [0..<N]"
      by (rule map_cong) auto
    show ?thesis using True by (simp add: e concat_map_single)
  next
    case False
    with Suc.prems have "m \<le> N" by simp
    from Suc.IH[OF this] show ?thesis using \<open>m \<le> N\<close> by simp
  qed
qed

lemma writePos_codewordWrites: "writePos (codewordWrites data scan) = scan"
proof -
  have "writePos (codewordWrites data scan) = map fst (zip scan [0..<length scan])"
    unfolding writePos_def codewordWrites_def map_map
    by (rule map_cong) (auto split: prod.splits)
  then show ?thesis by simp
qed

lemma nth_codewordWrites:
  "i < length scan \<Longrightarrow>
   codewordWrites data scan ! i =
     (fst (scan ! i), snd (scan ! i),
      if i < length data * 8
      then newModule CodewordModule (getBit (word_of_int (data ! (i div 8))) (7 - i mod 8))
      else newModule RemainderModule False)"
  by (simp add: codewordWrites_def)

lemma take_drop_map_upt:
  "8 * j + 8 \<le> N \<Longrightarrow> take 8 (drop (8 * j) (map B [0..<N])) = map (\<lambda>k. B (8 * j + k)) [0..<8]"
proof -
  assume a: "8 * j + 8 \<le> N"
  have "[8 * j..<8 * j + 8] = map (\<lambda>k. k + 8 * j) [0..<8]"
    by (simp only: map_add_upt add.commute)
  then show ?thesis
    using a by (simp add: take_map drop_map take_upt drop_upt add.commute del: upt_Suc)
qed

lemma roundtrip_general:
  assumes wf: "wellFormed g"
    and raw: "getNumRawDataModules (version g) = Inr raw" "int (length data) = raw div 8"
    and bytes: "\<forall>b\<in>set data. 0 \<le> b \<and> b \<le> 255"
    and d: "distinct scan" and sub: "set scan \<subseteq> gridCells (sizeQ g)"
    and len: "length data * 8 \<le> length scan"
  shows "\<exists>g'. drawCodewords g data scan = Inr g'
           \<and> bytesOfBits (length data) (readCodewordBits (modules g') scan) = data"
proof -
  let ?n = "nat (sizeQ g)"
  let ?ws = "codewordWrites data scan"
  let ?B = "\<lambda>i. getBit (word_of_int (data ! (i div 8))) (7 - i mod 8)"
  let ?W = "\<lambda>i. if i < length data * 8 then newModule CodewordModule (?B i)
                 else newModule RemainderModule False"
  have s0: "0 \<le> sizeQ g" using wf by (simp add: wellFormed_def)
  have sq: "square ?n (modules g)" by (rule wellFormed_square[OF wf])
  have ins: "list_all (\<lambda>p. inside ?n (fst p) (snd p)) (writePos ?ws)"
    using sub by (auto simp: writePos_codewordWrites list_all_iff inside_gridCells[OF s0])
  from drawModules_square[OF sq ins] obtain ms where
    ms: "drawModules ?ws (modules g) = Inr ms" "square ?n ms"
      "\<And>x y. inside ?n x y \<Longrightarrow> ms ! nat x ! nat y = cellAfter ?ws (modules g ! nat x ! nat y) x y"
    by blast
  have dr: "drawCodewords g data scan = Inr (g\<lparr>modules := ms\<rparr>)"
    using raw ms(1) by (simp add: drawCodewords_def withModules_def)
  have lw: "length ?ws = length scan" by (simp add: codewordWrites_def)
  have cell: "getModule ms (fst (scan ! i)) (snd (scan ! i)) = Some (?W i)" if i: "i < length scan" for i
  proof -
    have mem: "(fst (scan ! i), snd (scan ! i), ?W i) \<in> set ?ws"
      using nth_codewordWrites[OF i, of data] nth_mem[of i ?ws] i lw by simp
    have "scan ! i \<in> gridCells (sizeQ g)" using sub i by auto
    then have inn: "inside ?n (fst (scan ! i)) (snd (scan ! i))"
      by (simp add: inside_gridCells[OF s0])
    have dd: "distinct (writePos ?ws)" using d by (simp add: writePos_codewordWrites)
    show ?thesis
      using inn cellAfter_distinct[OF dd mem] by (simp add: getModule_square[OF ms(2)] ms(3)[OF inn])
  qed
  have "readCodewordBits ms scan =
      concat (map (\<lambda>i. case getModule ms (fst (scan ! i)) (snd (scan ! i)) of
                Some (FilledModule CodewordModule c n) \<Rightarrow> [c] | _ \<Rightarrow> []) [0..<length scan])"
    unfolding readCodewordBits_def
    by (subst map_nth[of scan, symmetric]) (simp only: map_map o_def)
  also have "\<dots> = concat (map (\<lambda>i. if i < length data * 8 then [?B i] else []) [0..<length scan])"
    by (intro arg_cong[where f = concat] map_cong refl) (simp add: cell newModule_def)
  also have "\<dots> = map ?B [0..<length data * 8]"
    by (rule concat_map_if_upt[OF len])
  finally have rd: "readCodewordBits ms scan = map ?B [0..<length data * 8]" .
  have "bytesOfBits (length data) (map ?B [0..<length data * 8]) = data"
  proof (rule nth_equalityI)
    show "length (bytesOfBits (length data) (map ?B [0..<length data * 8])) = length data"
      by (simp add: length_bytesOfBits)
  next
    fix j assume "j < length (bytesOfBits (length data) (map ?B [0..<length data * 8]))"
    then have j: "j < length data" by (simp add: length_bytesOfBits)
    then have le: "8 * j + 8 \<le> length data * 8" by simp
    have bj: "0 \<le> data ! j" "data ! j \<le> 255" using bytes j by auto
    have "bytesOfBits (length data) (map ?B [0..<length data * 8]) ! j
            = byteOfBits (map (\<lambda>k. ?B (8 * j + k)) [0..<8])"
      by (simp only: nth_bytesOfBits[OF j] take_drop_map_upt[OF le])
    also have "map (\<lambda>k. ?B (8 * j + k)) [0..<8]
            = map (\<lambda>k. getBit (word_of_int (data ! j)) (7 - k)) [0..<8]"
      by (rule map_cong) auto
    also have "byteOfBits \<dots> = data ! j" by (rule byteOfBits_byte[OF bj])
    finally show "bytesOfBits (length data) (map ?B [0..<length data * 8]) ! j = data ! j" .
  qed
  with rd dr show ?thesis by simp
qed

text \<open>
  C1. For every version in [1,40], every level, every mask index from -1 to 7 and every
  sequence of \<open>getNumRawDataModules(version) div 8\<close> bytes, \<^verbatim>\<open>drawCodewords\<close> along the
  zig-zag scan of the grid with its function patterns succeeds, and the colours of the
  codeword cells read in the same scan order, taken eight at a time with the most
  significant bit first, are the bytes that were written.
\<close>

theorem drawCodewords_roundtrip:
  "1 \<le> ver \<and> ver \<le> 40 \<and> -1 \<le> msk \<and> msk \<le> 7
   \<and> getNumRawDataModules ver = Inr raw \<and> int (length data) = raw div 8
   \<and> (\<forall>b\<in>set data. 0 \<le> b \<and> b \<le> 255) \<longrightarrow>
     (\<exists>g scan g'. drawFunctionPatterns ver ecl msk = Inr g
        \<and> makeZigZagScan g = Inr scan
        \<and> drawCodewords g data scan = Inr g'
        \<and> bytesOfBits (length data) (readCodewordBits (modules g') scan) = data)"
proof
  assume a: "1 \<le> ver \<and> ver \<le> 40 \<and> -1 \<le> msk \<and> msk \<le> 7
   \<and> getNumRawDataModules ver = Inr raw \<and> int (length data) = raw div 8
   \<and> (\<forall>b\<in>set data. 0 \<le> b \<and> b \<le> 255)"
  then have v: "1 \<le> ver" "ver \<le> 40" and m: "-1 \<le> msk" "msk \<le> 7"
    and raw: "getNumRawDataModules ver = Inr raw" and len: "int (length data) = raw div 8"
    and bytes: "\<forall>b\<in>set data. 0 \<le> b \<and> b \<le> 255"
    by blast+
  from scan_length[OF v m, of ecl] obtain g where
    g: "drawFunctionPatterns ver ecl msk = Inr g" "wellFormed g" "version g = ver"
       "sizeQ g = ver * 4 + 17" "distinct (scanCells g)"
       "set (scanCells g) = unfilledCells g"
       "unfilledCells g \<subseteq> gridCells (ver * 4 + 17)"
       "getNumRawDataModules ver = Inr (int (length (scanCells g)))"
    by blast
  from raw g(8) have r: "raw = int (length (scanCells g))" by simp
  have "raw div 8 * 8 \<le> raw" by simp
  with len r have l8: "length data * 8 \<le> length (scanCells g)" by linarith
  have sub: "set (scanCells g) \<subseteq> gridCells (sizeQ g)"
    using g(4,6,7) by simp
  have raw': "getNumRawDataModules (version g) = Inr raw" using raw g(3) by simp
  from roundtrip_general[OF g(2) raw' len bytes g(5) sub l8] g(1) makeZigZagScan_ok[OF g(2)]
  show "\<exists>g scan g'. drawFunctionPatterns ver ecl msk = Inr g
        \<and> makeZigZagScan g = Inr scan
        \<and> drawCodewords g data scan = Inr g'
        \<and> bytesOfBits (length data) (readCodewordBits (modules g') scan) = data"
    by blast
qed

theorem drawCodewords_roundtrip_witness:
  "\<exists>g scan g'. drawFunctionPatterns 1 MEDIUM 2 = Inr g
     \<and> makeZigZagScan g = Inr scan
     \<and> drawCodewords g [64, 86, 134, 86, 198, 198, 242, 194, 4, 132, 20, 37, 34, 16, 236, 17,
                         236, 17, 236, 17, 236, 17, 236, 17, 0, 255] scan = Inr g'
     \<and> bytesOfBits 26 (readCodewordBits (modules g') scan)
         = [64, 86, 134, 86, 198, 198, 242, 194, 4, 132, 20, 37, 34, 16, 236, 17,
            236, 17, 236, 17, 236, 17, 236, 17, 0, 255]"
proof -
  let ?d = "[64, 86, 134, 86, 198, 198, 242, 194, 4, 132, 20, 37, 34, 16, 236, 17,
             236, 17, 236, 17, 236, 17, 236, 17, 0, 255] :: int list"
  have l: "length ?d = 26" by simp
  have h: "(1::int) \<le> 1 \<and> (1::int) \<le> 40 \<and> (-1::int) \<le> 2 \<and> (2::int) \<le> 7
     \<and> getNumRawDataModules 1 = Inr 208 \<and> int (length ?d) = 208 div 8
     \<and> (\<forall>b\<in>set ?d. 0 \<le> b \<and> b \<le> 255)"
    by (simp add: getNumRawDataModules_def MIN_VERSION_def MAX_VERSION_def)
  from drawCodewords_roundtrip[of 1 2 208 ?d MEDIUM] h
  have "\<exists>g scan g'. drawFunctionPatterns 1 MEDIUM 2 = Inr g
        \<and> makeZigZagScan g = Inr scan
        \<and> drawCodewords g ?d scan = Inr g'
        \<and> bytesOfBits (length ?d) (readCodewordBits (modules g') scan) = ?d"
    by blast
  then show ?thesis unfolding l .
qed

end
